theory Spec2Isabelle
  imports Main "HOL-Library.Multiset"
begin

section \<open>Data model\<close>

text \<open>
  A \<open>time.Time\<close> is modelled by the instant it denotes, an integer count of
  nanoseconds; \<open>t.Before(u)\<close> of Go's time package compares instants.
\<close>

type_synonym time = int

definition Before :: "time \<Rightarrow> time \<Rightarrow> bool" where
  "Before t u = (t < u)"

text \<open>
  An entry of \<open>page.Contents\<close> (\<open>types.Object\<close>): the scan reads its key and
  its last-modified time only. The SDK hands both out behind pointers; the store fills them
  in for every listed object, and the model takes them as present.
\<close>

record Object =
  Key :: string
  LastModified :: time

text \<open>
  A batch is the slice of \<open>types.ObjectIdentifier\<close> sent over the channel; an
  identifier carries the key alone.
\<close>

type_synonym batch = "string list"

text \<open>
  The paginator is the sequence of answers its \<open>NextPage\<close> calls give, in order: the
  contents of a page, or an error. \<open>HasMorePages\<close> holds as long as answers remain.
  The SDK's paginator always gives a first answer; the properties below hold for the empty
  sequence as well.
\<close>

datatype page_result = Page "Object list" | PageError string

section \<open>The scan: \<open>listAndDeleteObjects\<close>\<close>

text \<open>
  The local variables of \<open>listAndDeleteObjects\<close>, and \<open>sent\<close>, the batches
  written to the channel \<open>objectsToDelete\<close> so far, oldest first. The counters of
  the program are 64-bit integers that count listed objects; they are modelled without a
  bound.
\<close>

record scan =
  objectsBuffer :: batch
  totalObjects :: int
  sent :: "batch list"

definition scan_start :: scan where
  "scan_start = \<lparr>objectsBuffer = [], totalObjects = 0, sent = []\<rparr>"

text \<open>The body of the inner loop (lines 139 to 147), for one object of the page.\<close>

definition scan_object :: "time \<Rightarrow> int \<Rightarrow> Object \<Rightarrow> scan \<Rightarrow> scan" where
  "scan_object targetDate maxKeysPerDelete obj st =
     (if Before (LastModified obj) targetDate then
        (let buf = objectsBuffer st @ [Key obj];
             tot = totalObjects st + 1
         in if int (length buf) \<ge> maxKeysPerDelete
            then st\<lparr>objectsBuffer := [], totalObjects := tot, sent := sent st @ [buf]\<rparr>
            else st\<lparr>objectsBuffer := buf, totalObjects := tot\<rparr>)
      else st)"

text \<open>The inner loop, \<open>for _, obj := range page.Contents\<close>.\<close>

fun scan_contents :: "time \<Rightarrow> int \<Rightarrow> Object list \<Rightarrow> scan \<Rightarrow> scan" where
  "scan_contents targetDate maxKeysPerDelete [] st = st"
| "scan_contents targetDate maxKeysPerDelete (obj # objs) st =
     scan_contents targetDate maxKeysPerDelete objs
       (scan_object targetDate maxKeysPerDelete obj st)"

text \<open>
  What a call of \<open>listAndDeleteObjects\<close> does: the batches it sent on the channel,
  oldest first, the count it returns and the error it returns.
\<close>

record scan_result =
  batches :: "batch list"
  total :: int
  err :: "string option"

text \<open>
  The outer loop, \<open>for paginator.HasMorePages()\<close>, and the code behind it. A failed
  fetch returns at once with the count and the error: the buffer is not sent and the pages
  behind are never asked for. When no answer remains, a buffer that is not empty is sent as
  the last batch.
\<close>

fun scan_pages :: "time \<Rightarrow> int \<Rightarrow> page_result list \<Rightarrow> scan \<Rightarrow> scan_result" where
  "scan_pages targetDate maxKeysPerDelete [] st =
     \<lparr>batches = (if length (objectsBuffer st) > 0
                  then sent st @ [objectsBuffer st] else sent st),
      total = totalObjects st, err = None\<rparr>"
| "scan_pages targetDate maxKeysPerDelete (PageError e # ps) st =
     \<lparr>batches = sent st, total = totalObjects st, err = Some e\<rparr>"
| "scan_pages targetDate maxKeysPerDelete (Page objs # ps) st =
     scan_pages targetDate maxKeysPerDelete ps
       (scan_contents targetDate maxKeysPerDelete objs st)"

definition listAndDeleteObjects :: "page_result list \<Rightarrow> time \<Rightarrow> int \<Rightarrow> scan_result" where
  "listAndDeleteObjects pages targetDate maxKeysPerDelete =
     scan_pages targetDate maxKeysPerDelete pages scan_start"

text \<open>
  Two views of a listing used to state properties: the objects of the pages fetched before
  the first failing fetch, and that failure, if any.
\<close>

fun fetched :: "page_result list \<Rightarrow> Object list" where
  "fetched [] = []"
| "fetched (PageError e # ps) = []"
| "fetched (Page objs # ps) = objs @ fetched ps"

fun first_error :: "page_result list \<Rightarrow> string option" where
  "first_error [] = None"
| "first_error (PageError e # ps) = Some e"
| "first_error (Page objs # ps) = first_error ps"

text \<open>The keys of the objects last modified strictly before the cutoff, in listing order.\<close>

definition candidates :: "time \<Rightarrow> Object list \<Rightarrow> string list" where
  "candidates cutoff objs = map Key (filter (\<lambda>obj. LastModified obj < cutoff) objs)"

section \<open>Parsing the date: \<open>parseDate\<close>\<close>

text \<open>The layouts of Go's time package that \<open>parseDate\<close> names.\<close>

definition RFC3339 :: string where
  "RFC3339 = ''2006-01-02T15:04:05Z07:00''"

definition RFC822 :: string where
  "RFC822 = ''02 Jan 06 15:04 MST''"

definition RFC850 :: string where
  "RFC850 = ''Monday, 02-Jan-06 15:04:05 MST''"

definition RFC1123 :: string where
  "RFC1123 = ''Mon, 02 Jan 2006 15:04:05 MST''"

definition RFC1123Z :: string where
  "RFC1123Z = ''Mon, 02 Jan 2006 15:04:05 -0700''"

definition RFC3339Nano :: string where
  "RFC3339Nano = ''2006-01-02T15:04:05.999999999Z07:00''"

definition formats :: "string list" where
  "formats =
     [''2006-01-02'', ''2006-01-02T15:04:05'', ''2006-01-02 15:04:05'',
      RFC822, RFC850, RFC1123, RFC1123Z, RFC3339Nano]"

text \<open>
  \<open>time.Parse\<close> belongs to Go's library and is a parameter here: \<open>parse layout value\<close>
  is the time it returns, or \<open>None\<close> when it returns an error. The loop over
  \<open>formats\<close> returns at the first layout that parses.
\<close>

fun try_formats :: "(string \<Rightarrow> string \<Rightarrow> time option) \<Rightarrow> string list \<Rightarrow> string \<Rightarrow> string + time" where
  "try_formats parse [] dateStr = Inl (''unable to parse date: '' @ dateStr)"
| "try_formats parse (format # fs) dateStr =
     (case parse format dateStr of
        Some t \<Rightarrow> Inr t
      | None \<Rightarrow> try_formats parse fs dateStr)"

definition parseDate :: "(string \<Rightarrow> string \<Rightarrow> time option) \<Rightarrow> string \<Rightarrow> string + time" where
  "parseDate parse dateStr =
     (case parse RFC3339 dateStr of
        Some t \<Rightarrow> Inr t
      | None \<Rightarrow> try_formats parse formats dateStr)"

section \<open>The store client\<close>

text \<open>
  What the program's surroundings decide: the answers of \<open>time.Parse\<close>, whether the SDK's
  \<open>LoadDefaultConfig\<close> fails for a region and static credentials (\<open>Some\<close> of its
  error), and the answers the paginator of a bucket gives.
\<close>

record world =
  time_Parse :: "string \<Rightarrow> string \<Rightarrow> time option"
  LoadDefaultConfig :: "string \<Rightarrow> (string \<times> string) option \<Rightarrow> string option"
  ListObjectsV2 :: "string \<Rightarrow> page_result list"

record client =
  Region :: string
  Credentials :: "(string \<times> string) option"
  UsePathStyle :: bool
  BaseEndpoint :: "string option"

definition createS3CompatibleClient :: "world \<Rightarrow> string \<Rightarrow> string \<Rightarrow> string \<Rightarrow> string \<Rightarrow> string + client" where
  "createS3CompatibleClient w endpoint region accessKey secretKey =
     (case LoadDefaultConfig w region (Some (accessKey, secretKey)) of
        Some e \<Rightarrow> Inl (''failed to load config: '' @ e)
      | None \<Rightarrow>
          Inr \<lparr>Region = region, Credentials = Some (accessKey, secretKey),
               UsePathStyle = True, BaseEndpoint = Some endpoint\<rparr>)"

definition createAWSS3Client :: "world \<Rightarrow> string \<Rightarrow> string + client" where
  "createAWSS3Client w region =
     (case LoadDefaultConfig w region None of
        Some e \<Rightarrow> Inl (''failed to load config: '' @ e)
      | None \<Rightarrow>
          Inr \<lparr>Region = region, Credentials = None,
               UsePathStyle = False, BaseEndpoint = None\<rparr>)"

section \<open>The setup in \<open>main\<close>\<close>

text \<open>The command line flags, under their names on the command line.\<close>

record flags =
  bucket :: string
  date :: string
  workers :: int
  endpoint :: string
  region :: string
  access_key :: string
  secret_key :: string
  max_keys :: int

text \<open>
  The ways a run ends early: the five calls of \<open>log.Fatal\<close> and \<open>log.Fatalf\<close> in
  \<open>main\<close>, each printing its message and leaving with status 1, and the panic of
  \<open>make\<close> for a channel of negative capacity, which leaves with status 2.
\<close>

datatype failure =
    RequiredFlags
  | InvalidDate string
  | RequiredKeys
  | ClientFailed string
  | ListFailed string
  | MakechanPanic

fun exit_status :: "failure \<Rightarrow> int" where
  "exit_status MakechanPanic = 2"
| "exit_status _ = 1"

text \<open>Lines 39 to 52 of \<open>main\<close>: the store client, for a given endpoint or for AWS.\<close>

definition make_client :: "world \<Rightarrow> flags \<Rightarrow> failure + client" where
  "make_client w f =
     (if endpoint f \<noteq> [] then
        (if access_key f = [] \<or> secret_key f = [] then Inl RequiredKeys
         else case createS3CompatibleClient w (endpoint f) (region f)
                     (access_key f) (secret_key f) of
           Inl e \<Rightarrow> Inl (ClientFailed e)
         | Inr c \<Rightarrow> Inr c)
      else case createAWSS3Client w (region f) of
           Inl e \<Rightarrow> Inl (ClientFailed e)
         | Inr c \<Rightarrow> Inr c)"

text \<open>Lines 30 to 52 of \<open>main\<close>: the checks and calls before the channel is made.\<close>

definition main_setup :: "world \<Rightarrow> flags \<Rightarrow> failure + client \<times> time" where
  "main_setup w f =
     (if bucket f = [] \<or> date f = [] then Inl RequiredFlags
      else case parseDate (time_Parse w) (date f) of
        Inl e \<Rightarrow> Inl (InvalidDate e)
      | Inr td \<Rightarrow>
          (case make_client w f of
             Inl x \<Rightarrow> Inl x
           | Inr c \<Rightarrow> Inr (c, td)))"

text \<open>
  The order of these steps as the specification words it: the required flags, then the
  store client, then the date. Only used to compare with \<open>main_setup\<close>.
\<close>

definition main_setup_as_specified :: "world \<Rightarrow> flags \<Rightarrow> failure + client \<times> time" where
  "main_setup_as_specified w f =
     (if bucket f = [] \<or> date f = [] then Inl RequiredFlags
      else case make_client w f of
        Inl x \<Rightarrow> Inl x
      | Inr c \<Rightarrow>
          (case parseDate (time_Parse w) (date f) of
             Inl e \<Rightarrow> Inl (InvalidDate e)
           | Inr td \<Rightarrow> Inr (c, td)))"

section \<open>The pipeline: one scanning thread and the workers\<close>

text \<open>
  Where a worker stands: at the receive of its \<open>range\<close> loop, holding a batch before
  its \<open>DeleteObjects\<close> call, after a call that succeeded and before the atomic add, or
  returned.
\<close>

datatype wstate = AtReceive | AtDelete batch | AtAdd batch | Exited

text \<open>
  Where the main goroutine stands from line 65 on: in the loops of
  \<open>listAndDeleteObjects\<close>, at its send of a full buffer (line 144), at its send of the
  rest (line 152), returned from it with or without an error, at \<open>wg.Wait()\<close> after the
  close, after the summary line with the two counts it prints, or left through
  \<open>log.Fatalf\<close>.
\<close>

datatype mpc =
    Scanning
  | SendFull
  | SendRest
  | Returned "string option"
  | Waiting
  | Finished int int
  | Fatal failure

text \<open>
  The state of a run: the arguments and locals of \<open>listAndDeleteObjects\<close> (the answers
  the paginator has still to give, the rest of the page being ranged over, and the record
  \<open>scanner\<close> of its buffer, its count and the batches it has sent), the channel
  \<open>objectsToDelete\<close> with its capacity, its buffered batches oldest first and whether
  it is closed, the workers, the shared counter, and \<open>deletes\<close>, the
  \<open>DeleteObjects\<close> calls made so far, each with its batch and whether it succeeded.
\<close>

record pipeline =
  pc :: mpc
  targetDate :: time
  maxKeysPerDelete :: int
  paginator :: "page_result list"
  contents :: "Object list"
  scanner :: scan
  objectsToDelete :: "batch list"
  capacity :: nat
  closed :: bool
  pool :: "wstate list"
  totalDeleted :: int
  deletes :: "(batch \<times> bool) list"

text \<open>
  Lines 54 to 65: the channel is made with capacity \<open>workers\<close>, that many workers are
  started, and the scan begins.
\<close>

definition start :: "page_result list \<Rightarrow> time \<Rightarrow> int \<Rightarrow> int \<Rightarrow> pipeline" where
  "start pages td m n =
     \<lparr>pc = Scanning, targetDate = td, maxKeysPerDelete = m,
      paginator = pages, contents = [], scanner = scan_start,
      objectsToDelete = [], capacity = nat n, closed = False,
      pool = replicate (nat n) AtReceive, totalDeleted = 0, deletes = []\<rparr>"

text \<open>
  One step of the main goroutine; \<open>None\<close> when it is blocked (a send on a full channel,
  \<open>wg.Wait()\<close> with a worker still running) or the process has ended.
\<close>

definition main_step :: "pipeline \<Rightarrow> pipeline option" where
  "main_step s =
     (case pc s of
        Scanning \<Rightarrow>
          (case contents s of
             obj # objs \<Rightarrow>
               (if Before (LastModified obj) (targetDate s) then
                  (let buf = objectsBuffer (scanner s) @ [Key obj];
                       tot = totalObjects (scanner s) + 1
                   in Some (s\<lparr>contents := objs,
                               scanner := (scanner s)\<lparr>objectsBuffer := buf, totalObjects := tot\<rparr>,
                               pc := (if int (length buf) \<ge> maxKeysPerDelete s
                                      then SendFull else Scanning)\<rparr>))
                else Some (s\<lparr>contents := objs\<rparr>))
           | [] \<Rightarrow>
               (case paginator s of
                  Page objs # ps \<Rightarrow> Some (s\<lparr>paginator := ps, contents := objs\<rparr>)
                | PageError e # ps \<Rightarrow> Some (s\<lparr>paginator := ps, pc := Returned (Some e)\<rparr>)
                | [] \<Rightarrow>
                    Some (s\<lparr>pc := (if length (objectsBuffer (scanner s)) > 0
                                     then SendRest else Returned None)\<rparr>)))
      | SendFull \<Rightarrow>
          (if length (objectsToDelete s) < capacity s then
             Some (s\<lparr>objectsToDelete := objectsToDelete s @ [objectsBuffer (scanner s)],
                      scanner := (scanner s)\<lparr>objectsBuffer := [],
                                   sent := sent (scanner s) @ [objectsBuffer (scanner s)]\<rparr>,
                      pc := Scanning\<rparr>)
           else None)
      | SendRest \<Rightarrow>
          (if length (objectsToDelete s) < capacity s then
             Some (s\<lparr>objectsToDelete := objectsToDelete s @ [objectsBuffer (scanner s)],
                      scanner := (scanner s)\<lparr>sent := sent (scanner s) @ [objectsBuffer (scanner s)]\<rparr>,
                      pc := Returned None\<rparr>)
           else None)
      | Returned (Some e) \<Rightarrow> Some (s\<lparr>pc := Fatal (ListFailed e)\<rparr>)
      | Returned None \<Rightarrow> Some (s\<lparr>closed := True, pc := Waiting\<rparr>)
      | Waiting \<Rightarrow>
          (if list_all (\<lambda>w. w = Exited) (pool s)
           then Some (s\<lparr>pc := Finished (totalDeleted s) (totalObjects (scanner s))\<rparr>)
           else None)
      | Finished d t \<Rightarrow> None
      | Fatal x \<Rightarrow> None)"

text \<open>The process has ended: \<open>main\<close> has returned or \<open>log.Fatalf\<close> has left it.\<close>

fun ended :: "mpc \<Rightarrow> bool" where
  "ended (Finished d t) = True"
| "ended (Fatal x) = True"
| "ended _ = False"

text \<open>
  One step of worker \<open>i\<close>; \<open>ok\<close> is the answer of the store when the step is a
  \<open>DeleteObjects\<close> call. \<open>None\<close> when there is no such worker, it has returned, it is
  blocked at the receive (channel empty and not closed), or the process has ended.
\<close>

definition worker_step :: "nat \<Rightarrow> bool \<Rightarrow> pipeline \<Rightarrow> pipeline option" where
  "worker_step i ok s =
     (if i \<ge> length (pool s) \<or> ended (pc s) then None
      else case pool s ! i of
        AtReceive \<Rightarrow>
          (case objectsToDelete s of
             objects # rest \<Rightarrow>
               Some (s\<lparr>objectsToDelete := rest, pool := (pool s)[i := AtDelete objects]\<rparr>)
           | [] \<Rightarrow> (if closed s then Some (s\<lparr>pool := (pool s)[i := Exited]\<rparr>) else None))
      | AtDelete objects \<Rightarrow>
          Some (s\<lparr>deletes := deletes s @ [(objects, ok)],
                   pool := (pool s)[i := (if ok then AtAdd objects else AtReceive)]\<rparr>)
      | AtAdd objects \<Rightarrow>
          Some (s\<lparr>totalDeleted := totalDeleted s + int (length objects),
                   pool := (pool s)[i := AtReceive]\<rparr>)
      | Exited \<Rightarrow> None)"

text \<open>
  A schedule names, step by step, the goroutine that runs next and, for a worker, the
  store's answer to its call.
\<close>

datatype action = MainStep | WorkerStep nat bool

fun step :: "action \<Rightarrow> pipeline \<Rightarrow> pipeline option" where
  "step MainStep s = main_step s"
| "step (WorkerStep i ok) s = worker_step i ok s"

fun exec :: "action list \<Rightarrow> pipeline \<Rightarrow> pipeline option" where
  "exec [] s = Some s"
| "exec (a # as) s = (case step a s of None \<Rightarrow> None | Some s' \<Rightarrow> exec as s')"

text \<open>
  The program: the setup, then the channel and the workers; what follows is the runs of
  the pipeline from the state returned.
\<close>

definition main :: "world \<Rightarrow> flags \<Rightarrow> failure + pipeline" where
  "main w f =
     (case main_setup w f of
        Inl x \<Rightarrow> Inl x
      | Inr (c, td) \<Rightarrow>
          (if workers f < 0 then Inl MakechanPanic
           else Inr (start (ListObjectsV2 w (bucket f)) td (max_keys f) (workers f))))"

section \<open>Invariants of the scan\<close>

text \<open>
  With a positive limit, every batch sent holds between one key and the limit, and the
  buffer stays strictly below the limit between two objects.
\<close>

definition bounded :: "int \<Rightarrow> scan \<Rightarrow> bool" where
  "bounded m st \<longleftrightarrow>
     int (length (objectsBuffer st)) < m \<and>
     list_all (\<lambda>b. 1 \<le> length b \<and> int (length b) \<le> m) (sent st)"

text \<open>
  With a limit of one or less the flush follows every append: the buffer is empty between
  two objects and every batch sent holds one key.
\<close>

definition singles :: "scan \<Rightarrow> bool" where
  "singles st \<longleftrightarrow> objectsBuffer st = [] \<and> list_all (\<lambda>b. length b = 1) (sent st)"

section \<open>Invariants and measures of a run\<close>

text \<open>The number of keys in a list of batches.\<close>

definition sizes :: "batch list \<Rightarrow> int" where
  "sizes bs = sum_list (map (\<lambda>b. int (length b)) bs)"

text \<open>
  The batch a worker has received and not yet passed to \<open>DeleteObjects\<close>.
\<close>

fun held :: "wstate \<Rightarrow> batch multiset" where
  "held (AtDelete b) = {#b#}"
| "held _ = {#}"

text \<open>The keys of a batch a worker has deleted and not yet added to the counter.\<close>

fun uncounted :: "wstate \<Rightarrow> int" where
  "uncounted (AtAdd b) = int (length b)"
| "uncounted _ = 0"

text \<open>
  The places of the main goroutine at which the buffer holds nothing that is still to be
  sent.
\<close>

fun flushed :: "mpc \<Rightarrow> bool" where
  "flushed (Returned None) = True"
| "flushed Waiting = True"
| "flushed (Finished d t) = True"
| "flushed _ = False"

text \<open>
  The count of the scan: every key sent or still buffered has been counted, exactly once;
  no batch sent is empty, and a buffer about to be sent is not empty.
\<close>

definition counted :: "pipeline \<Rightarrow> bool" where
  "counted s \<longleftrightarrow>
     totalObjects (scanner s)
       = sizes (sent (scanner s))
         + (if flushed (pc s) then 0 else int (length (objectsBuffer (scanner s))))
     \<and> [] \<notin> set (sent (scanner s))
     \<and> (pc s = SendFull \<or> pc s = SendRest \<longrightarrow> objectsBuffer (scanner s) \<noteq> [])"

text \<open>
  The batches sent are in the channel, held by a worker, or were passed to a
  \<open>DeleteObjects\<close> call, each once; the counter and the keys not yet added
  make up the keys of the calls that succeeded.
\<close>

definition conserved :: "pipeline \<Rightarrow> bool" where
  "conserved s \<longleftrightarrow>
     mset (sent (scanner s))
       = mset (objectsToDelete s) + sum_list (map held (pool s)) + mset (map fst (deletes s))
     \<and> totalDeleted s + sum_list (map uncounted (pool s))
       = sizes (map fst (filter snd (deletes s)))"

text \<open>
  The channel and the wait group: as many workers as the channel has room for, a channel
  within its capacity and closed exactly from \<open>close\<close> on, workers that return
  only from a closed and empty channel, and a summary that prints the two counters once
  every worker has returned.
\<close>

definition synced :: "pipeline \<Rightarrow> bool" where
  "synced s \<longleftrightarrow>
     length (pool s) = capacity s
     \<and> length (objectsToDelete s) \<le> capacity s
     \<and> (closed s \<longleftrightarrow> pc s = Waiting \<or> (\<exists>d t. pc s = Finished d t))
     \<and> (Exited \<in> set (pool s) \<longrightarrow> closed s \<and> objectsToDelete s = [])
     \<and> (\<forall>d t. pc s = Finished d t \<longrightarrow>
           d = totalDeleted s \<and> t = totalObjects (scanner s)
           \<and> list_all (\<lambda>w. w = Exited) (pool s))"

text \<open>
  What \<open>listAndDeleteObjects\<close>, as defined above in one piece, does from the
  place the main goroutine has reached: the link between the scan run step by step and
  \<open>scan_pages\<close>.
\<close>

fun scan_rest :: "pipeline \<Rightarrow> scan_result" where
  "scan_rest s =
     (case pc s of
        Scanning \<Rightarrow>
          scan_pages (targetDate s) (maxKeysPerDelete s) (Page (contents s) # paginator s)
            (scanner s)
      | SendFull \<Rightarrow>
          scan_pages (targetDate s) (maxKeysPerDelete s) (Page (contents s) # paginator s)
            ((scanner s)\<lparr>objectsBuffer := [],
                          sent := sent (scanner s) @ [objectsBuffer (scanner s)]\<rparr>)
      | SendRest \<Rightarrow>
          \<lparr>batches = sent (scanner s) @ [objectsBuffer (scanner s)],
           total = totalObjects (scanner s), err = None\<rparr>
      | Returned e \<Rightarrow>
          \<lparr>batches = sent (scanner s), total = totalObjects (scanner s), err = e\<rparr>
      | Waiting \<Rightarrow>
          \<lparr>batches = sent (scanner s), total = totalObjects (scanner s), err = None\<rparr>
      | Finished d t \<Rightarrow>
          \<lparr>batches = sent (scanner s), total = totalObjects (scanner s), err = None\<rparr>
      | Fatal x \<Rightarrow>
          \<lparr>batches = sent (scanner s), total = totalObjects (scanner s),
           err = (case x of ListFailed e \<Rightarrow> Some e | _ \<Rightarrow> None)\<rparr>)"

text \<open>
  The step by step scan follows \<open>listAndDeleteObjects\<close> on the listing of the
  run.
\<close>

definition follows :: "page_result list \<Rightarrow> time \<Rightarrow> int \<Rightarrow> pipeline \<Rightarrow> bool" where
  "follows pages td m s \<longleftrightarrow>
     targetDate s = td \<and> maxKeysPerDelete s = m
     \<and> scan_rest s = listAndDeleteObjects pages td m
     \<and> (\<forall>x. pc s = Fatal x \<longrightarrow> (\<exists>e. x = ListFailed e))"

text \<open>
  The invariant of a run on a listing, a cutoff, a batch limit and a number of workers.
\<close>

definition sound :: "page_result list \<Rightarrow> time \<Rightarrow> int \<Rightarrow> int \<Rightarrow> pipeline \<Rightarrow> bool" where
  "sound pages td m n s \<longleftrightarrow>
     counted s \<and> conserved s \<and> synced s \<and> follows pages td m s \<and> capacity s = nat n"

text \<open>Steps the scan has still to make for the answers not yet fetched.\<close>

fun remaining :: "page_result list \<Rightarrow> nat" where
  "remaining [] = 0"
| "remaining (Page objs # ps) = Suc (5 * length objs + remaining ps)"
| "remaining (PageError e # ps) = Suc (remaining ps)"

text \<open>
  Steps the main goroutine has still to make, channel sends counted with the work they
  hand to the workers.
\<close>

fun pc_work :: "mpc \<Rightarrow> nat \<Rightarrow> nat" where
  "pc_work Scanning k = 7 + k"
| "pc_work SendFull k = 11 + k"
| "pc_work SendRest k = 6"
| "pc_work (Returned e) k = 2"
| "pc_work Waiting k = 1"
| "pc_work (Finished d t) k = 0"
| "pc_work (Fatal x) k = 0"

text \<open>Steps a worker has still to make before its next receive, and its return.\<close>

fun worker_work :: "wstate \<Rightarrow> nat" where
  "worker_work AtReceive = 1"
| "worker_work (AtDelete b) = 3"
| "worker_work (AtAdd b) = 2"
| "worker_work Exited = 0"

text \<open>A bound on the steps a run can still make.\<close>

definition work :: "pipeline \<Rightarrow> nat" where
  "work s =
     pc_work (pc s) (5 * length (contents s) + remaining (paginator s))
     + 3 * length (objectsToDelete s)
     + sum_list (map worker_work (pool s))"

text \<open>Some goroutine can make a step.\<close>

definition enabled :: "pipeline \<Rightarrow> bool" where
  "enabled s \<longleftrightarrow>
     main_step s \<noteq> None \<or> (\<exists>i \<in> {..<length (pool s)}. worker_step i True s \<noteq> None)"

section \<open>A sample listing\<close>

text \<open>
  Five objects on two pages: three last modified before instant 50, one exactly at it and
  one after it.
\<close>

definition sample_pages :: "page_result list" where
  "sample_pages =
     [Page [\<lparr>Key = ''a'', LastModified = 10\<rparr>,
            \<lparr>Key = ''b'', LastModified = 50\<rparr>,
            \<lparr>Key = ''c'', LastModified = 20\<rparr>],
      Page [\<lparr>Key = ''d'', LastModified = 70\<rparr>,
            \<lparr>Key = ''e'', LastModified = 30\<rparr>]]"

text \<open>
  Surroundings in which \<open>2023-01-01\<close> parses under the layout \<open>2006-01-02\<close> alone (to
  midnight UTC of that day, in nanoseconds), no other string parses, loading the
  configuration succeeds and every bucket lists the sample pages; and the flags of a run on
  them.
\<close>

definition sample_world :: world where
  "sample_world =
     \<lparr>time_Parse = (\<lambda>layout v.
         if layout = ''2006-01-02'' \<and> v = ''2023-01-01''
         then Some 1672531200000000000 else None),
      LoadDefaultConfig = (\<lambda>r c. None),
      ListObjectsV2 = (\<lambda>b. sample_pages)\<rparr>"

definition sample_flags :: flags where
  "sample_flags =
     \<lparr>bucket = ''my-bucket'', date = ''2023-01-01'', workers = 2, endpoint = [],
      region = ''us-east-1'', access_key = [], secret_key = [], max_keys = 2\<rparr>"


text \<open>
  A run on the sample listing with cutoff 50, batch limit 2 and two workers: the scan sends
  two batches and returns, the first worker deletes the first batch, the delete call of the
  second worker fails, and the summary is printed.
\<close>

definition sample_schedule :: "action list" where
  "sample_schedule =
     [MainStep, MainStep, MainStep, MainStep, MainStep, MainStep,
      MainStep, MainStep, MainStep, MainStep, MainStep,
      WorkerStep 0 True, WorkerStep 0 True, WorkerStep 0 True,
      WorkerStep 1 False, WorkerStep 1 False,
      WorkerStep 0 True, WorkerStep 1 True, MainStep]"

text \<open>
  A run on the sample listing with cutoff 5, which no object precedes, and one worker: no
  batch is sent.
\<close>

definition idle_schedule :: "action list" where
  "idle_schedule =
     [MainStep, MainStep, MainStep, MainStep, MainStep, MainStep,
      MainStep, MainStep, MainStep, WorkerStep 0 True, MainStep]"

text \<open>
  A listing whose second fetch fails, and a run on it with cutoff 50, batch limit 1 and one
  worker in which the worker is not scheduled before the process ends; \<open>abandoned\<close>
  is the state this run ends in.
\<close>

definition failing_pages :: "page_result list" where
  "failing_pages = [Page [\<lparr>Key = ''a'', LastModified = 10\<rparr>], PageError ''boom'']"

definition failing_schedule :: "action list" where
  "failing_schedule = [MainStep, MainStep, MainStep, MainStep, MainStep]"

definition abandoned :: pipeline where
  "abandoned =
     \<lparr>pc = Fatal (ListFailed ''boom''), targetDate = 50, maxKeysPerDelete = 1,
      paginator = [], contents = [],
      scanner = \<lparr>objectsBuffer = [], totalObjects = 1, sent = [[''a'']]\<rparr>,
      objectsToDelete = [[''a'']], capacity = 1, closed = False,
      pool = [AtReceive], totalDeleted = 0, deletes = []\<rparr>"

section \<open>Properties of the scan\<close>

lemma scan_contents_append:
  "scan_contents td m (xs @ ys) st = scan_contents td m ys (scan_contents td m xs st)"
  by (induction xs arbitrary: st) simp_all

lemma scan_pages_complete:
  assumes "first_error pages = None"
  shows "scan_pages td m pages st =
           (let st' = scan_contents td m (fetched pages) st
            in \<lparr>batches = (if length (objectsBuffer st') > 0
                            then sent st' @ [objectsBuffer st'] else sent st'),
                total = totalObjects st', err = None\<rparr>)"
  using assms
proof (induction pages arbitrary: st)
  case Nil
  show ?case by simp
next
  case (Cons p ps)
  show ?case
  proof (cases p)
    case (Page objs)
    with Cons show ?thesis by (simp add: scan_contents_append)
  next
    case (PageError e)
    with Cons.prems show ?thesis by simp
  qed
qed

lemma scan_pages_failed:
  assumes "first_error pages = Some e"
  shows "scan_pages td m pages st =
           (let st' = scan_contents td m (fetched pages) st
            in \<lparr>batches = sent st', total = totalObjects st', err = Some e\<rparr>)"
  using assms
proof (induction pages arbitrary: st)
  case Nil
  then show ?case by simp
next
  case (Cons p ps)
  show ?case
  proof (cases p)
    case (Page objs)
    with Cons show ?thesis by (simp add: scan_contents_append)
  next
    case (PageError e')
    with Cons.prems show ?thesis by simp
  qed
qed

lemma scan_contents_keys:
  "concat (sent (scan_contents td m objs st)) @ objectsBuffer (scan_contents td m objs st)
     = concat (sent st) @ objectsBuffer st @ candidates td objs"
proof (induction objs arbitrary: st)
  case Nil
  show ?case by (simp add: candidates_def)
next
  case (Cons obj objs)
  have step: "concat (sent (scan_object td m obj st)) @ objectsBuffer (scan_object td m obj st)
                = concat (sent st) @ objectsBuffer st @ candidates td [obj]"
    by (simp add: scan_object_def candidates_def Before_def Let_def)
  have split: "candidates td (obj # objs) = candidates td [obj] @ candidates td objs"
    by (simp add: candidates_def)
  show ?case
    using Cons.IH [of "scan_object td m obj st"] step split by simp
qed

lemma scan_contents_total:
  "totalObjects (scan_contents td m objs st)
     = totalObjects st + int (length (candidates td objs))"
proof (induction objs arbitrary: st)
  case Nil
  show ?case by (simp add: candidates_def)
next
  case (Cons obj objs)
  have "totalObjects (scan_object td m obj st)
          = totalObjects st + int (length (candidates td [obj]))"
    by (simp add: scan_object_def candidates_def Before_def Let_def)
  then show ?case
    using Cons.IH [of "scan_object td m obj st"] by (simp add: candidates_def)
qed

lemma scan_object_bounded:
  "0 < m \<Longrightarrow> bounded m st \<Longrightarrow> bounded m (scan_object td m obj st)"
  by (auto simp: bounded_def scan_object_def Let_def)

lemma scan_contents_bounded:
  "0 < m \<Longrightarrow> bounded m st \<Longrightarrow> bounded m (scan_contents td m objs st)"
  by (induction objs arbitrary: st) (simp_all add: scan_object_bounded)

lemma scan_object_singles:
  "m \<le> 1 \<Longrightarrow> singles st \<Longrightarrow> singles (scan_object td m obj st)"
  by (auto simp: singles_def scan_object_def Let_def)

lemma scan_contents_singles:
  "m \<le> 1 \<Longrightarrow> singles st \<Longrightarrow> singles (scan_contents td m objs st)"
  by (induction objs arbitrary: st) (simp_all add: scan_object_singles)

lemma listAndDeleteObjects_complete:
  assumes "first_error pages = None"
  shows "concat (batches (listAndDeleteObjects pages td m)) = candidates td (fetched pages)"
    and "total (listAndDeleteObjects pages td m) = int (length (candidates td (fetched pages)))"
    and "err (listAndDeleteObjects pages td m) = None"
proof -
  let ?st = "scan_contents td m (fetched pages) scan_start"
  note sp = scan_pages_complete [OF assms, of td m scan_start]
  have keys: "concat (sent ?st) @ objectsBuffer ?st = candidates td (fetched pages)"
    using scan_contents_keys [of td m "fetched pages" scan_start] by (simp add: scan_start_def)
  show "concat (batches (listAndDeleteObjects pages td m)) = candidates td (fetched pages)"
  proof (cases "objectsBuffer ?st = []")
    case True
    with keys show ?thesis by (simp add: listAndDeleteObjects_def sp Let_def)
  next
    case False
    with keys show ?thesis by (simp add: listAndDeleteObjects_def sp Let_def)
  qed
  have tot: "totalObjects ?st = int (length (candidates td (fetched pages)))"
    using scan_contents_total [of td m "fetched pages" scan_start] by (simp add: scan_start_def)
  show "total (listAndDeleteObjects pages td m) = int (length (candidates td (fetched pages)))"
    using tot by (simp add: listAndDeleteObjects_def sp Let_def)
  show "err (listAndDeleteObjects pages td m) = None"
    by (simp add: listAndDeleteObjects_def sp Let_def)
qed

lemma sample_scan:
  "listAndDeleteObjects sample_pages 50 2
     = \<lparr>batches = [[''a'', ''c''], [''e'']], total = 3, err = None\<rparr>"
  by (simp add: listAndDeleteObjects_def sample_pages_def scan_start_def scan_object_def
      Before_def Let_def)

lemma sample_fetched:
  "fetched sample_pages =
     [\<lparr>Key = ''a'', LastModified = 10\<rparr>, \<lparr>Key = ''b'', LastModified = 50\<rparr>,
      \<lparr>Key = ''c'', LastModified = 20\<rparr>, \<lparr>Key = ''d'', LastModified = 70\<rparr>,
      \<lparr>Key = ''e'', LastModified = 30\<rparr>]"
  by (simp add: sample_pages_def)

lemma sample_complete: "first_error sample_pages = None"
  by (simp add: sample_pages_def)

text \<open>
  C1. When every page of the listing is fetched, the keys in the batches sent are, with
  their multiplicities, the keys of the listed objects last modified strictly before the
  cutoff, and the count returned is their number. Where the listed keys are distinct, an
  object's key is in some batch if and only if the object was last modified strictly before
  the cutoff; so an object last modified exactly at the cutoff is in no batch. This holds
  for every batch limit.
\<close>

theorem scan_selects_strictly_before:
  assumes "first_error pages = None"
  shows "mset (concat (batches (listAndDeleteObjects pages cutoff m)))
           = image_mset Key (filter_mset (\<lambda>obj. LastModified obj < cutoff) (mset (fetched pages)))
         \<and> total (listAndDeleteObjects pages cutoff m)
           = int (size (filter_mset (\<lambda>obj. LastModified obj < cutoff) (mset (fetched pages))))
         \<and> (distinct (map Key (fetched pages)) \<longrightarrow>
              (\<forall>obj \<in> set (fetched pages).
                 (\<exists>b \<in> set (batches (listAndDeleteObjects pages cutoff m)). Key obj \<in> set b)
                   \<longleftrightarrow> LastModified obj < cutoff))"
proof -
  let ?r = "listAndDeleteObjects pages cutoff m"
  let ?objs = "fetched pages"
  have keys: "concat (batches ?r) = candidates cutoff ?objs"
    using assms by (rule listAndDeleteObjects_complete(1))
  have tot: "total ?r = int (length (candidates cutoff ?objs))"
    using assms by (rule listAndDeleteObjects_complete(2))
  have a: "mset (concat (batches ?r))
             = image_mset Key (filter_mset (\<lambda>obj. LastModified obj < cutoff) (mset ?objs))"
    unfolding keys candidates_def by simp
  have b: "total ?r = int (size (filter_mset (\<lambda>obj. LastModified obj < cutoff) (mset ?objs)))"
    unfolding tot candidates_def by (simp flip: mset_filter)
  have c: "(\<exists>b \<in> set (batches ?r). Key obj \<in> set b) \<longleftrightarrow> LastModified obj < cutoff"
    if d: "distinct (map Key ?objs)" and mem: "obj \<in> set ?objs" for obj
  proof -
    have inj: "inj_on Key (set ?objs)"
      using d by (simp add: distinct_map)
    have "(\<exists>b \<in> set (batches ?r). Key obj \<in> set b) \<longleftrightarrow> Key obj \<in> set (concat (batches ?r))"
      by auto
    also have "\<dots> \<longleftrightarrow> Key obj \<in> Key ` {x \<in> set ?objs. LastModified x < cutoff}"
      unfolding keys candidates_def by simp
    also have "\<dots> \<longleftrightarrow> obj \<in> {x \<in> set ?objs. LastModified x < cutoff}"
      using inj mem by (auto dest: inj_onD)
    also have "\<dots> \<longleftrightarrow> LastModified obj < cutoff"
      using mem by simp
    finally show ?thesis .
  qed
  show ?thesis using a b c by blast
qed

theorem scan_selects_strictly_before_witness:
  "first_error sample_pages = None
   \<and> distinct (map Key (fetched sample_pages))
   \<and> mset (concat (batches (listAndDeleteObjects sample_pages 50 2))) = {#''a'', ''c'', ''e''#}
   \<and> total (listAndDeleteObjects sample_pages 50 2) = 3
   \<and> \<not> (\<exists>b \<in> set (batches (listAndDeleteObjects sample_pages 50 2)). ''b'' \<in> set b)"
proof -
  have d: "distinct (map Key (fetched sample_pages))"
    by (simp add: sample_fetched)
  have mem: "\<lparr>Key = ''b'', LastModified = 50\<rparr> \<in> set (fetched sample_pages)"
    by (simp add: sample_fetched)
  note t = scan_selects_strictly_before [OF sample_complete, of 50 2]
  have "mset (concat (batches (listAndDeleteObjects sample_pages 50 2))) = {#''a'', ''c'', ''e''#}"
    using t by (simp add: sample_fetched)
  moreover have "total (listAndDeleteObjects sample_pages 50 2) = 3"
    using t by (simp add: sample_fetched)
  moreover have "\<not> (\<exists>b \<in> set (batches (listAndDeleteObjects sample_pages 50 2)). ''b'' \<in> set b)"
    using t d mem by fastforce
  ultimately show ?thesis using d sample_complete by simp
qed

text \<open>
  C2. With a batch limit \<open>m > 0\<close> and every page of the listing fetched, each batch sent
  holds at least one key and at most \<open>m\<close>, and the batches together hold exactly the
  candidate keys, each as often as it is a candidate: none is left out, and where the
  candidate keys are distinct none is sent twice. The last batch is the remainder of the
  buffer, sent after the last page when it is not empty.
\<close>

theorem batches_bounded_partition:
  assumes "0 < m" and "first_error pages = None"
  shows "(\<forall>b \<in> set (batches (listAndDeleteObjects pages cutoff m)).
            1 \<le> length b \<and> int (length b) \<le> m)
         \<and> mset (concat (batches (listAndDeleteObjects pages cutoff m)))
             = mset (candidates cutoff (fetched pages))
         \<and> (distinct (candidates cutoff (fetched pages)) \<longrightarrow>
              distinct (concat (batches (listAndDeleteObjects pages cutoff m))))"
proof -
  let ?st = "scan_contents cutoff m (fetched pages) scan_start"
  note sp = scan_pages_complete [OF assms(2), of cutoff m scan_start]
  have "bounded m scan_start"
    using assms(1) by (simp add: bounded_def scan_start_def)
  then have bd: "bounded m ?st"
    using assms(1) by (rule scan_contents_bounded [rotated])
  have sizes: "\<forall>b \<in> set (batches (listAndDeleteObjects pages cutoff m)).
                 1 \<le> length b \<and> int (length b) \<le> m"
    using bd by (auto simp: listAndDeleteObjects_def sp Let_def bounded_def list_all_iff Suc_le_eq)
  have keys: "concat (batches (listAndDeleteObjects pages cutoff m))
                = candidates cutoff (fetched pages)"
    using assms(2) by (rule listAndDeleteObjects_complete(1))
  show ?thesis using sizes keys by simp
qed

theorem batches_bounded_partition_witness:
  "(0::int) < 2 \<and> first_error sample_pages = None
   \<and> distinct (candidates 50 (fetched sample_pages))
   \<and> batches (listAndDeleteObjects sample_pages 50 2) = [[''a'', ''c''], [''e'']]
   \<and> list_all (\<lambda>b. 1 \<le> length b \<and> int (length b) \<le> 2)
        (batches (listAndDeleteObjects sample_pages 50 2))
   \<and> distinct (concat (batches (listAndDeleteObjects sample_pages 50 2)))"
proof -
  have pos: "(0::int) < 2" by simp
  have d: "distinct (candidates 50 (fetched sample_pages))"
    by (simp add: sample_fetched candidates_def)
  note t = batches_bounded_partition [OF pos sample_complete, of 50]
  have "list_all (\<lambda>b. 1 \<le> length b \<and> int (length b) \<le> 2)
          (batches (listAndDeleteObjects sample_pages 50 2))"
    using t by (simp add: list_all_iff)
  moreover have "distinct (concat (batches (listAndDeleteObjects sample_pages 50 2)))"
    using t d by blast
  ultimately show ?thesis using d sample_complete sample_scan by simp
qed

text \<open>
  C9. When every page of the listing is fetched, the batches sent, concatenated in the order
  they are sent, are the keys of the listed objects last modified strictly before the
  cutoff, in listing order.
\<close>

theorem scan_preserves_order:
  assumes "first_error pages = None"
  shows "concat (batches (listAndDeleteObjects pages cutoff m))
           = map Key (filter (\<lambda>obj. LastModified obj < cutoff) (fetched pages))"
  using listAndDeleteObjects_complete(1) [OF assms, of cutoff m]
  by (simp add: candidates_def)

theorem scan_preserves_order_witness:
  "first_error sample_pages = None
   \<and> concat (batches (listAndDeleteObjects sample_pages 50 1)) = [''a'', ''c'', ''e'']"
  using scan_preserves_order [OF sample_complete, of 50 1] sample_complete
  by (simp add: sample_fetched)

text \<open>
  C10. With a batch limit of one, zero or less the scan behaves as with limit one: every
  batch sent holds exactly one key, the batches are the candidate keys of the fetched pages
  in order, each once, the count is their number, and the scan returns an error only when a
  page fetch fails.
\<close>

theorem small_limit_single_key_batches:
  assumes "m \<le> 1"
  shows "(\<forall>b \<in> set (batches (listAndDeleteObjects pages cutoff m)). length b = 1)
         \<and> batches (listAndDeleteObjects pages cutoff m)
             = map (\<lambda>k. [k]) (candidates cutoff (fetched pages))
         \<and> total (listAndDeleteObjects pages cutoff m)
             = int (length (candidates cutoff (fetched pages)))
         \<and> err (listAndDeleteObjects pages cutoff m) = first_error pages"
proof -
  let ?st = "scan_contents cutoff m (fetched pages) scan_start"
  let ?r = "listAndDeleteObjects pages cutoff m"
  note sp = scan_pages_complete [of pages cutoff m scan_start]
    scan_pages_failed [of pages _ cutoff m scan_start]
  have "singles scan_start"
    by (simp add: singles_def scan_start_def)
  then have sg: "singles ?st"
    using assms by (rule scan_contents_singles [rotated])
  have b: "batches ?r = sent ?st"
    using sg by (cases "first_error pages") (simp_all add: listAndDeleteObjects_def sp Let_def singles_def)
  have one: "\<forall>b \<in> set (batches ?r). length b = 1"
    using sg by (simp add: b singles_def list_all_iff)
  have "concat (sent ?st) @ objectsBuffer ?st = candidates cutoff (fetched pages)"
    using scan_contents_keys [of cutoff m "fetched pages" scan_start] by (simp add: scan_start_def)
  then have cc: "concat (batches ?r) = candidates cutoff (fetched pages)"
    using sg by (simp add: b singles_def)
  have shape: "xss = map (\<lambda>k. [k]) (concat xss)" if "\<forall>xs \<in> set xss. length xs = 1"
    for xss :: "string list list"
    using that
  proof (induction xss)
    case Nil
    show ?case by simp
  next
    case (Cons xs xss)
    then obtain k where "xs = [k]"
      by (cases xs) auto
    with Cons show ?case by simp
  qed
  have bs: "batches ?r = map (\<lambda>k. [k]) (candidates cutoff (fetched pages))"
    using shape [OF one] cc by simp
  have "totalObjects ?st = int (length (candidates cutoff (fetched pages)))"
    using scan_contents_total [of cutoff m "fetched pages" scan_start] by (simp add: scan_start_def)
  then have tot: "total ?r = int (length (candidates cutoff (fetched pages)))"
    by (cases "first_error pages") (simp_all add: listAndDeleteObjects_def sp Let_def)
  have er: "err ?r = first_error pages"
    by (cases "first_error pages") (simp_all add: listAndDeleteObjects_def sp Let_def)
  show ?thesis using one bs tot er by simp
qed

theorem small_limit_single_key_batches_witness:
  "(-3::int) \<le> 1
   \<and> batches (listAndDeleteObjects sample_pages 50 (-3)) = [[''a''], [''c''], [''e'']]
   \<and> total (listAndDeleteObjects sample_pages 50 (-3)) = 3
   \<and> err (listAndDeleteObjects sample_pages 50 (-3)) = None"
proof -
  have le: "(-3::int) \<le> 1" by simp
  show ?thesis
    using small_limit_single_key_batches [OF le, of sample_pages 50] sample_complete
    by (simp add: sample_fetched candidates_def)
qed

section \<open>Properties of the setup\<close>

lemma try_formats_Inr:
  "(\<exists>t. try_formats parse fs v = Inr t) \<longleftrightarrow> (\<exists>layout \<in> set fs. parse layout v \<noteq> None)"
  by (induction fs) (auto split: option.splits)

lemma try_formats_result:
  "try_formats parse fs v = Inr t \<Longrightarrow> \<exists>layout \<in> set fs. parse layout v = Some t"
  by (induction fs) (auto split: option.splits)

lemma try_formats_Inl:
  "try_formats parse fs v = Inl e \<Longrightarrow> e = ''unable to parse date: '' @ v"
  by (induction fs) (auto split: option.splits)

lemma try_formats_first:
  "i < length fs \<Longrightarrow> parse (fs ! i) v = Some t \<Longrightarrow> (\<forall>j<i. parse (fs ! j) v = None)
     \<Longrightarrow> try_formats parse fs v = Inr t"
proof (induction fs arbitrary: i)
  case Nil
  then show ?case by simp
next
  case (Cons f fs)
  show ?case
  proof (cases i)
    case 0
    with Cons.prems show ?thesis by simp
  next
    case (Suc k)
    with Cons.prems have k: "k < length fs" and at: "parse (fs ! k) v = Some t"
      by simp_all
    from Cons.prems(3) Suc have first: "parse f v = None"
      by (metis nth_Cons_0 zero_less_Suc)
    have "\<forall>j<k. parse (fs ! j) v = None"
    proof (intro allI impI)
      fix j assume "j < k"
      then have "Suc j < i" using Suc by simp
      with Cons.prems(3) have "parse ((f # fs) ! Suc j) v = None" by blast
      then show "parse (fs ! j) v = None" by simp
    qed
    from Cons.IH [OF k at this] first show ?thesis by simp
  qed
qed

lemma parseDate_try_formats:
  "parseDate parse v = try_formats parse (RFC3339 # formats) v"
  by (simp add: parseDate_def)

lemma layouts_of_parseDate:
  "RFC3339 # formats =
     [''2006-01-02T15:04:05Z07:00'',
      ''2006-01-02'',
      ''2006-01-02T15:04:05'',
      ''2006-01-02 15:04:05'',
      ''02 Jan 06 15:04 MST'',
      ''Monday, 02-Jan-06 15:04:05 MST'',
      ''Mon, 02 Jan 2006 15:04:05 MST'',
      ''Mon, 02 Jan 2006 15:04:05 -0700'',
      ''2006-01-02T15:04:05.999999999Z07:00'']"
  by (simp add: formats_def RFC3339_def RFC822_def RFC850_def RFC1123_def RFC1123Z_def
      RFC3339Nano_def)

text \<open>
  C8. \<open>parseDate\<close> returns a time exactly when \<open>time.Parse\<close> accepts the string under
  one of nine layouts, written out below as Go's time package defines them: RFC3339, then
  \<open>2006-01-02\<close>, \<open>2006-01-02T15:04:05\<close>, \<open>2006-01-02 15:04:05\<close>, RFC822, RFC850,
  RFC1123, RFC1123Z and RFC3339Nano. The time returned is the one \<open>time.Parse\<close> gives
  under the first layout, in this order, that accepts; so RFC3339 is tried first. When no
  layout accepts, \<open>parseDate\<close> returns its error, and the run ends before the pipeline
  starts, with exit status 1.
\<close>

theorem parseDate_succeeds_iff_some_layout:
  assumes "layouts =
     [''2006-01-02T15:04:05Z07:00'',
      ''2006-01-02'',
      ''2006-01-02T15:04:05'',
      ''2006-01-02 15:04:05'',
      ''02 Jan 06 15:04 MST'',
      ''Monday, 02-Jan-06 15:04:05 MST'',
      ''Mon, 02 Jan 2006 15:04:05 MST'',
      ''Mon, 02 Jan 2006 15:04:05 -0700'',
      ''2006-01-02T15:04:05.999999999Z07:00'']"
  shows
  "((\<exists>t. parseDate parse v = Inr t)
      \<longleftrightarrow> (\<exists>layout \<in> set layouts. parse layout v \<noteq> None))
   \<and> (\<forall>t. parseDate parse v = Inr t
          \<longrightarrow> (\<exists>layout \<in> set layouts. parse layout v = Some t))
   \<and> (\<forall>t. parse ''2006-01-02T15:04:05Z07:00'' v = Some t \<longrightarrow> parseDate parse v = Inr t)
   \<and> (\<forall>i t. i < length layouts \<and> parse (layouts ! i) v = Some t
            \<and> (\<forall>j<i. parse (layouts ! j) v = None)
          \<longrightarrow> parseDate parse v = Inr t)
   \<and> ((\<forall>layout \<in> set layouts. parse layout v = None)
        \<longrightarrow> parseDate parse v = Inl (''unable to parse date: '' @ v)
            \<and> (\<forall>w f. time_Parse w = parse \<and> date f = v
                  \<longrightarrow> (\<exists>x. main w f = Inl x \<and> exit_status x = 1)))"
proof -
  have ls: "layouts = RFC3339 # formats"
    using assms layouts_of_parseDate by simp
  have first: "layouts ! 0 = ''2006-01-02T15:04:05Z07:00''" "0 < length layouts"
    using assms by simp_all
  have a: "(\<exists>t. parseDate parse v = Inr t)
             \<longleftrightarrow> (\<exists>layout \<in> set layouts. parse layout v \<noteq> None)"
    unfolding ls parseDate_try_formats by (rule try_formats_Inr)
  have b: "\<exists>layout \<in> set layouts. parse layout v = Some t"
    if "parseDate parse v = Inr t" for t
    using that unfolding ls parseDate_try_formats by (rule try_formats_result)
  have o: "parseDate parse v = Inr t"
    if "i < length layouts" and "parse (layouts ! i) v = Some t"
      and "\<forall>j<i. parse (layouts ! j) v = None" for i t
    using that unfolding ls parseDate_try_formats by (rule try_formats_first)
  have c: "parseDate parse v = Inr t" if "parse ''2006-01-02T15:04:05Z07:00'' v = Some t" for t
    using o [of 0 t] first that by simp
  have d: "parseDate parse v = Inl (''unable to parse date: '' @ v)"
    if none: "\<forall>layout \<in> set layouts. parse layout v = None"
  proof (cases "parseDate parse v")
    case (Inl e)
    then have "try_formats parse (RFC3339 # formats) v = Inl e"
      by (simp add: parseDate_try_formats)
    then have "e = ''unable to parse date: '' @ v"
      by (rule try_formats_Inl)
    then show ?thesis using Inl by simp
  next
    case (Inr t)
    then show ?thesis using a none by auto
  qed
  have e: "\<exists>x. main w f = Inl x \<and> exit_status x = 1"
    if none: "\<forall>layout \<in> set layouts. parse layout v = None"
      and wf: "time_Parse w = parse" "date f = v" for w f
    using d [OF none] wf by (simp add: main_def main_setup_def)
  show ?thesis using a b c o d e by blast
qed

theorem parseDate_succeeds_iff_some_layout_witness:
  "parseDate (\<lambda>l v. if l = ''2006-01-02T15:04:05Z07:00'' then Some 1 else None) ''x'' = Inr 1
   \<and> parseDate (\<lambda>l v. if l = ''2006-01-02'' then Some 2 else None) ''x'' = Inr 2
   \<and> parseDate (\<lambda>l v. if l = ''2006-01-02T15:04:05'' then Some 3 else None) ''x'' = Inr 3
   \<and> parseDate (\<lambda>l v. if l = ''2006-01-02 15:04:05'' then Some 4 else None) ''x'' = Inr 4
   \<and> parseDate (\<lambda>l v. if l = ''02 Jan 06 15:04 MST'' then Some 5 else None) ''x'' = Inr 5
   \<and> parseDate (\<lambda>l v. if l = ''Monday, 02-Jan-06 15:04:05 MST'' then Some 6 else None) ''x'' = Inr 6
   \<and> parseDate (\<lambda>l v. if l = ''Mon, 02 Jan 2006 15:04:05 MST'' then Some 7 else None) ''x'' = Inr 7
   \<and> parseDate (\<lambda>l v. if l = ''Mon, 02 Jan 2006 15:04:05 -0700'' then Some 8 else None) ''x'' = Inr 8
   \<and> parseDate (\<lambda>l v. if l = ''2006-01-02T15:04:05.999999999Z07:00'' then Some 9 else None) ''x'' = Inr 9
   \<and> parseDate (\<lambda>l v. if l = ''2006-01-02'' then Some 2
                      else if l = ''Mon, 02 Jan 2006 15:04:05 -0700'' then Some 8
                      else None) ''x'' = Inr 2
   \<and> parseDate (time_Parse sample_world) ''2023-01-01'' = Inr 1672531200000000000
   \<and> parseDate (time_Parse sample_world) ''yesterday'' = Inl ''unable to parse date: yesterday''
   \<and> main sample_world (sample_flags\<lparr>date := ''yesterday''\<rparr>)
       = Inl (InvalidDate ''unable to parse date: yesterday'')"
proof -
  define layouts where "layouts =
     [''2006-01-02T15:04:05Z07:00'',
      ''2006-01-02'',
      ''2006-01-02T15:04:05'',
      ''2006-01-02 15:04:05'',
      ''02 Jan 06 15:04 MST'',
      ''Monday, 02-Jan-06 15:04:05 MST'',
      ''Mon, 02 Jan 2006 15:04:05 MST'',
      ''Mon, 02 Jan 2006 15:04:05 -0700'',
      ''2006-01-02T15:04:05.999999999Z07:00'']"
  note t = parseDate_succeeds_iff_some_layout [OF layouts_def]
  have one: "parseDate (\<lambda>l v. if l = a then Some k else None) ''x'' = Inr k"
    if "a \<in> set layouts" for a :: string and k :: int
  proof -
    let ?p = "\<lambda>l v::string. if l = a then Some k else None"
    from that have "\<exists>layout \<in> set layouts. ?p layout ''x'' \<noteq> None" by auto
    with t [of ?p "''x''"] obtain t0 where t0: "parseDate ?p ''x'' = Inr t0" by blast
    with t [of ?p "''x''"] have "\<exists>layout \<in> set layouts. ?p layout ''x'' = Some t0" by blast
    then have "t0 = k" by (auto split: if_splits)
    with t0 show ?thesis by simp
  qed
  note one = one [unfolded layouts_def]
  have k1: "parseDate (\<lambda>l v. if l = ''2006-01-02T15:04:05Z07:00'' then Some 1 else None) ''x'' = Inr 1"
    by (rule one) simp
  have k2: "parseDate (\<lambda>l v. if l = ''2006-01-02'' then Some 2 else None) ''x'' = Inr 2"
    by (rule one) simp
  have k3: "parseDate (\<lambda>l v. if l = ''2006-01-02T15:04:05'' then Some 3 else None) ''x'' = Inr 3"
    by (rule one) simp
  have k4: "parseDate (\<lambda>l v. if l = ''2006-01-02 15:04:05'' then Some 4 else None) ''x'' = Inr 4"
    by (rule one) simp
  have k5: "parseDate (\<lambda>l v. if l = ''02 Jan 06 15:04 MST'' then Some 5 else None) ''x'' = Inr 5"
    by (rule one) simp
  have k6: "parseDate (\<lambda>l v. if l = ''Monday, 02-Jan-06 15:04:05 MST'' then Some 6 else None) ''x'' = Inr 6"
    by (rule one) simp
  have k7: "parseDate (\<lambda>l v. if l = ''Mon, 02 Jan 2006 15:04:05 MST'' then Some 7 else None) ''x'' = Inr 7"
    by (rule one) simp
  have k8: "parseDate (\<lambda>l v. if l = ''Mon, 02 Jan 2006 15:04:05 -0700'' then Some 8 else None) ''x'' = Inr 8"
    by (rule one) simp
  have k9: "parseDate (\<lambda>l v. if l = ''2006-01-02T15:04:05.999999999Z07:00'' then Some 9 else None) ''x'' = Inr 9"
    by (rule one) simp
  let ?q = "\<lambda>l v::string. if l = ''2006-01-02'' then Some (2::int)
              else if l = ''Mon, 02 Jan 2006 15:04:05 -0700'' then Some 8 else None"
  have "1 < length layouts \<and> ?q (layouts ! 1) ''x'' = Some 2
          \<and> (\<forall>j<1. ?q (layouts ! j) ''x'' = None)"
    by (simp add: layouts_def)
  with t [of ?q "''x''"] have order: "parseDate ?q ''x'' = Inr 2" by blast
  have "\<exists>layout \<in> set layouts. time_Parse sample_world layout ''2023-01-01'' \<noteq> None"
    by (simp add: sample_world_def layouts_def)
  with t [of "time_Parse sample_world" "''2023-01-01''"]
  obtain t0 where t0: "parseDate (time_Parse sample_world) ''2023-01-01'' = Inr t0" by blast
  with t [of "time_Parse sample_world" "''2023-01-01''"]
  have "\<exists>layout \<in> set layouts. time_Parse sample_world layout ''2023-01-01'' = Some t0"
    by blast
  then have "t0 = 1672531200000000000"
    by (auto simp: sample_world_def split: if_splits)
  with t0 have yes: "parseDate (time_Parse sample_world) ''2023-01-01'' = Inr 1672531200000000000"
    by simp
  have "\<forall>layout \<in> set layouts. time_Parse sample_world layout ''yesterday'' = None"
    by (simp add: sample_world_def)
  with t [of "time_Parse sample_world" "''yesterday''"]
  have no: "parseDate (time_Parse sample_world) ''yesterday''
              = Inl ''unable to parse date: yesterday''"
    by simp
  then have fatal: "main sample_world (sample_flags\<lparr>date := ''yesterday''\<rparr>)
                      = Inl (InvalidDate ''unable to parse date: yesterday'')"
    by (simp add: main_def main_setup_def sample_flags_def)
  show ?thesis
    using k1 k2 k3 k4 k5 k6 k7 k8 k9 order yes no fatal by simp
qed

text \<open>
  C7, as the code has it. The steps run in the order: required flags, date, store client.
  Missing flags end the run whatever the date and the client would do; with the flags
  present, a date that does not parse ends it whatever the client would do; with a date
  that parses, a client that cannot be made ends it. In each case \<open>main\<close> ends before
  the channel is made, so before any page is asked for and any delete call. Otherwise the
  pipeline starts with every page still to fetch and no delete call made.
\<close>

theorem main_setup_order:
  "(bucket f = [] \<or> date f = [] \<longrightarrow> main w f = Inl RequiredFlags)
   \<and> (\<forall>e. bucket f \<noteq> [] \<and> date f \<noteq> [] \<and> parseDate (time_Parse w) (date f) = Inl e
          \<longrightarrow> main w f = Inl (InvalidDate e))
   \<and> (\<forall>td x. bucket f \<noteq> [] \<and> date f \<noteq> [] \<and> parseDate (time_Parse w) (date f) = Inr td
            \<and> make_client w f = Inl x
          \<longrightarrow> main w f = Inl x)
   \<and> (\<forall>s. main w f = Inr s
          \<longrightarrow> pc s = Scanning \<and> paginator s = ListObjectsV2 w (bucket f) \<and> contents s = []
              \<and> sent (scanner s) = [] \<and> objectsToDelete s = [] \<and> deletes s = []
              \<and> parseDate (time_Parse w) (date f) = Inr (targetDate s)
              \<and> (\<exists>c. make_client w f = Inr c))"
proof -
  have d: "pc s = Scanning \<and> paginator s = ListObjectsV2 w (bucket f) \<and> contents s = []
           \<and> sent (scanner s) = [] \<and> objectsToDelete s = [] \<and> deletes s = []
           \<and> parseDate (time_Parse w) (date f) = Inr (targetDate s)
           \<and> (\<exists>c. make_client w f = Inr c)"
    if "main w f = Inr s" for s
    using that
    by (auto simp: main_def main_setup_def start_def scan_start_def
        split: if_splits sum.splits prod.splits)
  show ?thesis
    using d by (auto simp: main_def main_setup_def)
qed

theorem main_setup_order_witness:
  "main sample_world (sample_flags\<lparr>bucket := []\<rparr>) = Inl RequiredFlags
   \<and> main sample_world
        (sample_flags\<lparr>date := ''yesterday'', endpoint := ''http://localhost:9000''\<rparr>)
       = Inl (InvalidDate ''unable to parse date: yesterday'')
   \<and> main sample_world (sample_flags\<lparr>endpoint := ''http://localhost:9000''\<rparr>)
       = Inl RequiredKeys
   \<and> (\<exists>s. main sample_world sample_flags = Inr s)"
proof -
  have p1: "parseDate (time_Parse sample_world) ''yesterday''
              = Inl ''unable to parse date: yesterday''"
    by (simp add: parseDate_def sample_world_def formats_def)
  have p2: "parseDate (time_Parse sample_world) ''2023-01-01'' = Inr 1672531200000000000"
    by (simp add: parseDate_def sample_world_def formats_def RFC3339_def)
  have a: "main sample_world (sample_flags\<lparr>bucket := []\<rparr>) = Inl RequiredFlags"
    using main_setup_order [of "sample_flags\<lparr>bucket := []\<rparr>" sample_world] by simp
  have b: "main sample_world
             (sample_flags\<lparr>date := ''yesterday'', endpoint := ''http://localhost:9000''\<rparr>)
           = Inl (InvalidDate ''unable to parse date: yesterday'')"
    using main_setup_order
      [of "sample_flags\<lparr>date := ''yesterday'', endpoint := ''http://localhost:9000''\<rparr>"
          sample_world] p1
    by (simp add: sample_flags_def)
  have c: "main sample_world (sample_flags\<lparr>endpoint := ''http://localhost:9000''\<rparr>)
           = Inl RequiredKeys"
    using main_setup_order [of "sample_flags\<lparr>endpoint := ''http://localhost:9000''\<rparr>" sample_world]
      p2
    by (simp add: sample_flags_def make_client_def)
  have d: "\<exists>s. main sample_world sample_flags = Inr s"
    using p2 by (simp add: main_def main_setup_def make_client_def createAWSS3Client_def
        sample_flags_def sample_world_def)
  show ?thesis using a b c d by simp
qed

text \<open>
  The order the claim C7 states (flags, client, date) is not the code's: with a date that
  does not parse and a client that cannot be made (an endpoint without access key, or a
  configuration that does not load), the code reports the date, where the stated order
  reports the client.
\<close>

theorem main_setup_order_counterexample:
  "main_setup sample_world
       (sample_flags\<lparr>date := ''yesterday'', endpoint := ''http://localhost:9000''\<rparr>)
     = Inl (InvalidDate ''unable to parse date: yesterday'')
   \<and> main_setup_as_specified sample_world
       (sample_flags\<lparr>date := ''yesterday'', endpoint := ''http://localhost:9000''\<rparr>)
     = Inl RequiredKeys
   \<and> main_setup (sample_world\<lparr>LoadDefaultConfig := (\<lambda>r c. Some ''no region'')\<rparr>)
       (sample_flags\<lparr>date := ''yesterday''\<rparr>)
     = Inl (InvalidDate ''unable to parse date: yesterday'')
   \<and> main_setup_as_specified (sample_world\<lparr>LoadDefaultConfig := (\<lambda>r c. Some ''no region'')\<rparr>)
       (sample_flags\<lparr>date := ''yesterday''\<rparr>)
     = Inl (ClientFailed ''failed to load config: no region'')"
  by (simp add: main_setup_def main_setup_as_specified_def make_client_def parseDate_def
      createAWSS3Client_def sample_world_def sample_flags_def formats_def)

section \<open>Properties of the pipeline\<close>

lemma main_step_cases [consumes 1, case_names select skip fetch fail last send_full send_rest fatal close summary]:
  assumes "main_step s = Some s'"
  obtains
    (select) obj objs where "pc s = Scanning" and "contents s = obj # objs"
      and "Before (LastModified obj) (targetDate s)"
      and "s' = s\<lparr>contents := objs,
                   scanner := (scanner s)\<lparr>objectsBuffer := objectsBuffer (scanner s) @ [Key obj],
                                totalObjects := totalObjects (scanner s) + 1\<rparr>,
                   pc := (if int (length (objectsBuffer (scanner s) @ [Key obj]))
                               \<ge> maxKeysPerDelete s
                          then SendFull else Scanning)\<rparr>"
  | (skip) obj objs where "pc s = Scanning" and "contents s = obj # objs"
      and "\<not> Before (LastModified obj) (targetDate s)"
      and "s' = s\<lparr>contents := objs\<rparr>"
  | (fetch) objs ps where "pc s = Scanning" and "contents s = []"
      and "paginator s = Page objs # ps"
      and "s' = s\<lparr>paginator := ps, contents := objs\<rparr>"
  | (fail) e ps where "pc s = Scanning" and "contents s = []"
      and "paginator s = PageError e # ps"
      and "s' = s\<lparr>paginator := ps, pc := Returned (Some e)\<rparr>"
  | (last) "pc s = Scanning" and "contents s = []" and "paginator s = []"
      and "s' = s\<lparr>pc := (if length (objectsBuffer (scanner s)) > 0
                            then SendRest else Returned None)\<rparr>"
  | (send_full) "pc s = SendFull" and "length (objectsToDelete s) < capacity s"
      and "s' = s\<lparr>objectsToDelete := objectsToDelete s @ [objectsBuffer (scanner s)],
                   scanner := (scanner s)\<lparr>objectsBuffer := [],
                                sent := sent (scanner s) @ [objectsBuffer (scanner s)]\<rparr>,
                   pc := Scanning\<rparr>"
  | (send_rest) "pc s = SendRest" and "length (objectsToDelete s) < capacity s"
      and "s' = s\<lparr>objectsToDelete := objectsToDelete s @ [objectsBuffer (scanner s)],
                   scanner := (scanner s)\<lparr>sent := sent (scanner s) @ [objectsBuffer (scanner s)]\<rparr>,
                   pc := Returned None\<rparr>"
  | (fatal) e where "pc s = Returned (Some e)" and "s' = s\<lparr>pc := Fatal (ListFailed e)\<rparr>"
  | (close) "pc s = Returned None" and "s' = s\<lparr>closed := True, pc := Waiting\<rparr>"
  | (summary) "pc s = Waiting" and "list_all (\<lambda>w. w = Exited) (pool s)"
      and "s' = s\<lparr>pc := Finished (totalDeleted s) (totalObjects (scanner s))\<rparr>"
proof (cases "pc s")
  case Scanning
  show ?thesis
  proof (cases "contents s")
    case (Cons obj objs)
    show ?thesis
    proof (cases "Before (LastModified obj) (targetDate s)")
      case True
      from assms Scanning Cons True show ?thesis
        by (intro select [OF Scanning Cons True]) (simp add: main_step_def Let_def)
    next
      case False
      from assms Scanning Cons False show ?thesis
        by (intro skip [OF Scanning Cons False]) (simp add: main_step_def)
    qed
  next
    case Nil
    show ?thesis
    proof (cases "paginator s")
      case no_more: Nil
      from assms Scanning Nil no_more show ?thesis
        by (intro last [OF Scanning Nil no_more]) (simp add: main_step_def)
    next
      case (Cons p ps)
      show ?thesis
      proof (cases p)
        case (Page objs)
        with Cons have pg: "paginator s = Page objs # ps" by simp
        from assms Scanning Nil pg show ?thesis
          by (intro fetch [OF Scanning Nil pg]) (simp add: main_step_def)
      next
        case (PageError e)
        with Cons have pg: "paginator s = PageError e # ps" by simp
        from assms Scanning Nil pg show ?thesis
          by (intro fail [OF Scanning Nil pg]) (simp add: main_step_def)
      qed
    qed
  qed
next
  case SendFull
  from assms SendFull have room: "length (objectsToDelete s) < capacity s"
    by (simp add: main_step_def split: if_splits)
  from assms SendFull room show ?thesis
    by (intro send_full [OF SendFull room]) (simp add: main_step_def)
next
  case SendRest
  from assms SendRest have room: "length (objectsToDelete s) < capacity s"
    by (simp add: main_step_def split: if_splits)
  from assms SendRest room show ?thesis
    by (intro send_rest [OF SendRest room]) (simp add: main_step_def)
next
  case (Returned r)
  show ?thesis
  proof (cases r)
    case None
    with Returned have at: "pc s = Returned None" by simp
    from assms at show ?thesis
      by (intro close [OF at]) (simp add: main_step_def)
  next
    case (Some e)
    with Returned have at: "pc s = Returned (Some e)" by simp
    from assms at show ?thesis
      by (intro fatal [OF at]) (simp add: main_step_def)
  qed
next
  case Waiting
  from assms Waiting have all: "list_all (\<lambda>w. w = Exited) (pool s)"
    by (simp add: main_step_def split: if_splits)
  from assms Waiting all show ?thesis
    by (intro summary [OF Waiting all]) (simp add: main_step_def)
next
  case (Finished d t)
  with assms show ?thesis by (simp add: main_step_def)
next
  case (Fatal x)
  with assms show ?thesis by (simp add: main_step_def)
qed

lemma worker_step_cases [consumes 1, case_names receive exit delete_ok delete_failed add]:
  assumes "worker_step i ok s = Some s'"
  obtains
    (receive) b rest where "i < length (pool s)" and "\<not> ended (pc s)"
      and "pool s ! i = AtReceive" and "objectsToDelete s = b # rest"
      and "s' = s\<lparr>objectsToDelete := rest, pool := (pool s)[i := AtDelete b]\<rparr>"
  | (exit) "i < length (pool s)" and "\<not> ended (pc s)"
      and "pool s ! i = AtReceive" and "objectsToDelete s = []" and "closed s"
      and "s' = s\<lparr>pool := (pool s)[i := Exited]\<rparr>"
  | (delete_ok) b where "i < length (pool s)" and "\<not> ended (pc s)"
      and "pool s ! i = AtDelete b" and "ok"
      and "s' = s\<lparr>deletes := deletes s @ [(b, True)], pool := (pool s)[i := AtAdd b]\<rparr>"
  | (delete_failed) b where "i < length (pool s)" and "\<not> ended (pc s)"
      and "pool s ! i = AtDelete b" and "\<not> ok"
      and "s' = s\<lparr>deletes := deletes s @ [(b, False)], pool := (pool s)[i := AtReceive]\<rparr>"
  | (add) b where "i < length (pool s)" and "\<not> ended (pc s)"
      and "pool s ! i = AtAdd b"
      and "s' = s\<lparr>totalDeleted := totalDeleted s + int (length b),
                   pool := (pool s)[i := AtReceive]\<rparr>"
proof -
  from assms have i: "i < length (pool s)" and ne: "\<not> ended (pc s)"
    by (auto simp: worker_step_def split: if_splits)
  show ?thesis
  proof (cases "pool s ! i")
    case AtReceive
    show ?thesis
    proof (cases "objectsToDelete s")
      case Nil
      from assms i ne AtReceive Nil have cl: "closed s"
        by (simp add: worker_step_def split: if_splits)
      from assms i ne AtReceive Nil cl show ?thesis
        by (intro exit [OF i ne AtReceive Nil cl]) (simp add: worker_step_def)
    next
      case (Cons b rest)
      from assms i ne AtReceive Cons show ?thesis
        by (intro receive [OF i ne AtReceive Cons]) (simp add: worker_step_def)
    qed
  next
    case (AtDelete b)
    show ?thesis
    proof (cases ok)
      case True
      from assms i ne AtDelete True show ?thesis
        by (intro delete_ok [OF i ne AtDelete True]) (simp add: worker_step_def)
    next
      case False
      from assms i ne AtDelete False show ?thesis
        by (intro delete_failed [OF i ne AtDelete False]) (simp add: worker_step_def)
    qed
  next
    case (AtAdd b)
    from assms i ne AtAdd show ?thesis
      by (intro add [OF i ne AtAdd]) (simp add: worker_step_def)
  next
    case Exited
    with i ne assms show ?thesis
      by (simp add: worker_step_def)
  qed
qed

lemma sum_list_map_update:
  fixes g :: "'a \<Rightarrow> 'b::comm_monoid_add"
  shows "i < length xs \<Longrightarrow>
    sum_list (map g (xs[i := w])) + g (xs ! i) = sum_list (map g xs) + g w"
proof (induction xs arbitrary: i)
  case Nil
  then show ?case by simp
next
  case (Cons x xs)
  show ?case
  proof (cases i)
    case 0
    then show ?thesis by (simp add: ac_simps)
  next
    case (Suc j)
    with Cons.prems have "j < length xs" by simp
    from Cons.IH [OF this] show ?thesis using Suc by (simp add: ac_simps)
  qed
qed

lemma sum_list_replicate_zero:
  fixes z :: "'b::comm_monoid_add"
  shows "z = 0 \<Longrightarrow> sum_list (replicate k z) = 0"
  by (induction k) simp_all

lemma scan_update_swap:
  "(st::scan)\<lparr>totalObjects := a, objectsBuffer := b, sent := c\<rparr>
     = st\<lparr>objectsBuffer := b, totalObjects := a, sent := c\<rparr>"
  by (cases st) simp

subsection \<open>The count of the scan\<close>

lemma counted_start: "counted (start pages td m n)"
  by (simp add: counted_def start_def scan_start_def sizes_def)

lemma counted_main_step: "main_step s = Some s' \<Longrightarrow> counted s \<Longrightarrow> counted s'"
  by (erule main_step_cases) (auto simp: counted_def sizes_def)

lemma counted_worker_step: "worker_step i ok s = Some s' \<Longrightarrow> counted s \<Longrightarrow> counted s'"
  by (erule worker_step_cases) (simp_all add: counted_def)

subsection \<open>The channel and the wait group\<close>

lemma synced_start: "synced (start pages td m n)"
  by (simp add: synced_def start_def)

lemma synced_main_step: "main_step s = Some s' \<Longrightarrow> synced s \<Longrightarrow> synced s'"
  by (erule main_step_cases) (auto simp: synced_def)

lemma synced_worker_step: "worker_step i ok s = Some s' \<Longrightarrow> synced s \<Longrightarrow> synced s'"
  by (erule worker_step_cases)
    (auto simp: synced_def dest: set_update_subset_insert [THEN subsetD])

subsection \<open>Every batch sent is deleted at most once\<close>

lemma conserved_start: "conserved (start pages td m n)"
  by (simp add: conserved_def start_def scan_start_def sizes_def sum_list_replicate_zero)

lemma conserved_main_step: "main_step s = Some s' \<Longrightarrow> conserved s \<Longrightarrow> conserved s'"
  by (erule main_step_cases) (auto simp: conserved_def)

lemma conserved_worker_step:
  assumes "worker_step i ok s = Some s'" and "conserved s"
  shows "conserved s'"
  using assms(1)
proof (cases rule: worker_step_cases)
  case (receive b rest)
  with assms(2) sum_list_map_update [of i "pool s" held "AtDelete b"]
    sum_list_map_update [of i "pool s" uncounted "AtDelete b"]
  show ?thesis by (simp add: conserved_def)
next
  case exit
  with assms(2) sum_list_map_update [of i "pool s" held Exited]
    sum_list_map_update [of i "pool s" uncounted Exited]
  show ?thesis by (simp add: conserved_def)
next
  case (delete_ok b)
  with assms(2) sum_list_map_update [of i "pool s" held "AtAdd b"]
    sum_list_map_update [of i "pool s" uncounted "AtAdd b"]
  show ?thesis by (simp add: conserved_def sizes_def)
next
  case (delete_failed b)
  with assms(2) sum_list_map_update [of i "pool s" held AtReceive]
    sum_list_map_update [of i "pool s" uncounted AtReceive]
  show ?thesis by (simp add: conserved_def sizes_def)
next
  case (add b)
  with assms(2) sum_list_map_update [of i "pool s" held AtReceive]
    sum_list_map_update [of i "pool s" uncounted AtReceive]
  show ?thesis by (simp add: conserved_def)
qed

subsection \<open>The scan step by step is the scan in one piece\<close>

lemma follows_start: "follows pages td m (start pages td m n)"
  by (simp add: follows_def start_def listAndDeleteObjects_def)

lemma follows_main_step:
  "main_step s = Some s' \<Longrightarrow> follows pages td m s \<Longrightarrow> follows pages td m s'"
  by (erule main_step_cases)
    (auto simp: follows_def scan_object_def Let_def scan_update_swap)

lemma follows_worker_step:
  "worker_step i ok s = Some s' \<Longrightarrow> follows pages td m s \<Longrightarrow> follows pages td m s'"
  by (erule worker_step_cases) (auto simp: follows_def split: mpc.splits)

subsection \<open>The invariant holds in every state a run reaches\<close>

lemma capacity_step: "step a s = Some s' \<Longrightarrow> capacity s' = capacity s"
proof (cases a)
  case MainStep
  then show "step a s = Some s' \<Longrightarrow> capacity s' = capacity s"
    by (auto elim: main_step_cases)
next
  case (WorkerStep i ok)
  then show "step a s = Some s' \<Longrightarrow> capacity s' = capacity s"
    by (auto elim: worker_step_cases)
qed

lemma sound_start: "sound pages td m n (start pages td m n)"
  unfolding sound_def
  using counted_start conserved_start synced_start follows_start
  by (simp add: start_def)

lemma sound_step:
  assumes "step a s = Some s'" and "sound pages td m n s"
  shows "sound pages td m n s'"
proof (cases a)
  case MainStep
  with assms show ?thesis
    using capacity_step [OF assms(1)]
    by (simp add: sound_def counted_main_step conserved_main_step synced_main_step
        follows_main_step)
next
  case (WorkerStep i ok)
  with assms show ?thesis
    using capacity_step [OF assms(1)]
    by (simp add: sound_def counted_worker_step conserved_worker_step synced_worker_step
        follows_worker_step)
qed

lemma sound_exec:
  "exec sched s = Some s' \<Longrightarrow> sound pages td m n s \<Longrightarrow> sound pages td m n s'"
proof (induction sched arbitrary: s)
  case Nil
  then show ?case by simp
next
  case (Cons a sched)
  from Cons.prems(1) obtain s1 where s1: "step a s = Some s1" and rest: "exec sched s1 = Some s'"
    by (auto split: option.splits)
  from Cons.IH [OF rest sound_step [OF s1 Cons.prems(2)]] show ?case .
qed

lemma sound_reached:
  "exec sched (start pages td m n) = Some s \<Longrightarrow> sound pages td m n s"
  using sound_exec sound_start by blast

subsection \<open>Every step uses up work\<close>

lemma work_main_step: "main_step s = Some s' \<Longrightarrow> work s' < work s"
  by (erule main_step_cases) (auto simp: work_def)

lemma work_worker_step:
  assumes "worker_step i ok s = Some s'"
  shows "work s' < work s"
  using assms
proof (cases rule: worker_step_cases)
  case (receive b rest)
  with sum_list_map_update [of i "pool s" worker_work "AtDelete b"]
  show ?thesis by (simp add: work_def)
next
  case exit
  with sum_list_map_update [of i "pool s" worker_work Exited]
  show ?thesis by (simp add: work_def)
next
  case (delete_ok b)
  with sum_list_map_update [of i "pool s" worker_work "AtAdd b"]
  show ?thesis by (simp add: work_def)
next
  case (delete_failed b)
  with sum_list_map_update [of i "pool s" worker_work AtReceive]
  show ?thesis by (simp add: work_def)
next
  case (add b)
  with sum_list_map_update [of i "pool s" worker_work AtReceive]
  show ?thesis by (simp add: work_def)
qed

lemma work_step: "step a s = Some s' \<Longrightarrow> work s' < work s"
  by (cases a) (simp_all add: work_main_step work_worker_step)

lemma work_exec: "exec sched s = Some s' \<Longrightarrow> work s' + length sched \<le> work s"
proof (induction sched arbitrary: s)
  case Nil
  then show ?case by simp
next
  case (Cons a sched)
  from Cons.prems obtain s1 where s1: "step a s = Some s1" and rest: "exec sched s1 = Some s'"
    by (auto split: option.splits)
  from work_step [OF s1] Cons.IH [OF rest] show ?case by simp
qed

subsection \<open>A run that has not ended can go on\<close>

lemma worker_can_step:
  assumes "i < length (pool s)" and "\<not> ended (pc s)" and "pool s ! i \<noteq> Exited"
    and "objectsToDelete s \<noteq> [] \<or> closed s \<or> pool s ! i \<noteq> AtReceive"
  shows "worker_step i True s \<noteq> None"
  using assms
  by (cases "pool s ! i"; cases "objectsToDelete s") (simp_all add: worker_step_def)

lemma progress:
  assumes "synced s" and "0 < capacity s" and "\<not> ended (pc s)"
  shows "enabled s"
proof (cases "main_step s")
  case (Some s')
  then show ?thesis by (simp add: enabled_def)
next
  case None
  from assms(1) have len: "length (pool s) = capacity s"
    and cl: "closed s \<longleftrightarrow> pc s = Waiting \<or> (\<exists>d t. pc s = Finished d t)"
    and ex: "Exited \<in> set (pool s) \<Longrightarrow> closed s"
    by (auto simp: synced_def)
  from None assms(3) consider
      (full) "pc s = SendFull \<or> pc s = SendRest" "\<not> length (objectsToDelete s) < capacity s"
    | (wait) "pc s = Waiting" "\<not> list_all (\<lambda>w. w = Exited) (pool s)"
    by (cases "pc s")
      (auto simp: main_step_def Let_def split: list.splits page_result.splits if_splits option.splits)
  then show ?thesis
  proof cases
    case full
    with assms(2) have ne: "objectsToDelete s \<noteq> []" by auto
    from full cl have "\<not> closed s" by auto
    with ex have "pool s ! 0 \<noteq> Exited"
      using len assms(2) by (metis nth_mem)
    with ne have "worker_step 0 True s \<noteq> None"
      using len assms(2,3) by (intro worker_can_step) auto
    then show ?thesis
      using len assms(2) by (auto simp: enabled_def)
  next
    case wait
    then obtain i where i: "i < length (pool s)" "pool s ! i \<noteq> Exited"
      by (auto simp: list_all_length)
    from wait cl have "closed s" by simp
    with i have "worker_step i True s \<noteq> None"
      using assms(3) by (intro worker_can_step) auto
    with i show ?thesis by (auto simp: enabled_def)
  qed
qed

lemma enabled_step: "enabled s \<Longrightarrow> \<exists>a s'. step a s = Some s'"
  unfolding enabled_def
proof (elim disjE bexE)
  assume "main_step s \<noteq> None"
  then obtain s' where "step MainStep s = Some s'" by auto
  then show ?thesis by blast
next
  fix i assume "worker_step i True s \<noteq> None"
  then obtain s' where "step (WorkerStep i True) s = Some s'" by auto
  then show ?thesis by blast
qed

lemma run_to_end:
  assumes "sound pages td m n s" and "0 < n"
  shows "\<exists>sched s'. exec sched s = Some s' \<and> ended (pc s')"
  using assms(1)
proof (induction "work s" arbitrary: s rule: less_induct)
  case less
  show ?case
  proof (cases "ended (pc s)")
    case True
    then have "exec [] s = Some s \<and> ended (pc s)" by simp
    then show ?thesis by blast
  next
    case False
    from less.prems assms(2) have "synced s" "0 < capacity s"
      by (auto simp: sound_def)
    from progress [OF this False] obtain a s1 where s1: "step a s = Some s1"
      using enabled_step by blast
    from less.hyps [OF work_step [OF s1] sound_step [OF s1 less.prems]]
    obtain sched s' where "exec sched s1 = Some s'" "ended (pc s')" by blast
    with s1 have "exec (a # sched) s = Some s' \<and> ended (pc s')" by simp
    then show ?thesis by blast
  qed
qed

subsection \<open>Counting keys\<close>

lemma sizes_mset: "sizes bs = sum_mset (image_mset (\<lambda>b. int (length b)) (mset bs))"
  by (simp add: sizes_def flip: sum_mset_sum_list)

lemma sum_lengths_nonneg: "0 \<le> sum_mset (image_mset (\<lambda>b::batch. int (length b)) M)"
  by (induction M) simp_all

lemma sizes_nonneg: "0 \<le> sizes bs"
  by (simp add: sizes_mset sum_lengths_nonneg)

lemma sizes_split:
  "sizes (map fst ds)
     = sizes (map fst (filter snd ds)) + sizes (map fst (filter (\<lambda>c. \<not> snd c) ds))"
  by (induction ds) (simp_all add: sizes_def)

lemma sizes_positive: "b \<in> set bs \<Longrightarrow> b \<noteq> [] \<Longrightarrow> 0 < sizes bs"
proof (induction bs)
  case Nil
  then show ?case by simp
next
  case (Cons x xs)
  have rest: "0 \<le> sizes xs" by (rule sizes_nonneg)
  have unfold: "sizes (x # xs) = int (length x) + sizes xs"
    by (simp add: sizes_def)
  show ?case
  proof (cases "b = x")
    case True
    with Cons.prems have "0 < int (length x)" by simp
    with rest unfold show ?thesis by linarith
  next
    case False
    with Cons have "0 < sizes xs" by simp
    with unfold show ?thesis by simp
  qed
qed

lemma uncounted_nonneg: "0 \<le> sum_list (map uncounted ws)"
proof (induction ws)
  case Nil
  show ?case by simp
next
  case (Cons w ws)
  then show ?case by (cases w) simp_all
qed

lemma all_exited:
  "list_all (\<lambda>w. w = Exited) ws \<Longrightarrow>
     sum_list (map held ws) = {#} \<and> sum_list (map uncounted ws) = 0"
  by (induction ws) simp_all

subsection \<open>What the states of a run say about the scan\<close>

lemma ended_no_step: "ended (pc s) \<Longrightarrow> step a s = None"
  by (cases a; cases "pc s") (simp_all add: main_step_def worker_step_def)

lemma reached_result:
  assumes "exec sched (start pages td m n) = Some s"
  shows "(\<forall>r. pc s = Returned r \<longrightarrow> err (listAndDeleteObjects pages td m) = r)
         \<and> (pc s = SendRest \<or> pc s = Waiting \<or> (\<exists>d t. pc s = Finished d t)
              \<longrightarrow> err (listAndDeleteObjects pages td m) = None)
         \<and> (\<forall>x. pc s = Fatal x \<longrightarrow>
               (\<exists>e. x = ListFailed e \<and> err (listAndDeleteObjects pages td m) = Some e))
         \<and> (flushed (pc s) \<or> ended (pc s) \<or> (\<exists>r. pc s = Returned r) \<longrightarrow>
               batches (listAndDeleteObjects pages td m) = sent (scanner s)
               \<and> total (listAndDeleteObjects pages td m) = totalObjects (scanner s))"
proof -
  from sound_reached [OF assms] have f: "follows pages td m s"
    by (simp add: sound_def)
  then have r: "listAndDeleteObjects pages td m = scan_rest s"
    and fx: "\<forall>x. pc s = Fatal x \<longrightarrow> (\<exists>e. x = ListFailed e)"
    by (simp_all add: follows_def)
  show ?thesis
  proof (cases "pc s")
    case (Fatal x)
    with fx obtain e where "x = ListFailed e" by auto
    with Fatal r show ?thesis by auto
  qed (use r in auto)
qed

subsection \<open>The sample runs\<close>

lemma failing_run: "exec failing_schedule (start failing_pages 50 1 1) = Some abandoned"
  by (simp add: failing_schedule_def failing_pages_def abandoned_def start_def scan_start_def
      main_step_def Before_def Let_def)

lemma sample_run:
  "\<exists>s. exec sample_schedule (start sample_pages 50 2 2) = Some s
       \<and> pc s = Finished 2 3
       \<and> deletes s = [([''a'', ''c''], True), ([''e''], False)]"
  by (simp add: sample_schedule_def start_def sample_pages_def scan_start_def
      main_step_def worker_step_def Before_def Let_def eval_nat_numeral)

lemma sample_run_midway:
  "\<exists>s. exec (take 13 sample_schedule) (start sample_pages 50 2 2) = Some s
       \<and> pc s = Waiting \<and> totalObjects (scanner s) = 3 \<and> totalDeleted s = 0
       \<and> deletes s = [([''a'', ''c''], True)]"
  by (simp add: sample_schedule_def start_def sample_pages_def scan_start_def
      main_step_def worker_step_def Before_def Let_def eval_nat_numeral)

lemma idle_run:
  "\<exists>s. exec idle_schedule (start sample_pages 5 2 1) = Some s
       \<and> pc s = Finished 0 0 \<and> sent (scanner s) = [] \<and> deletes s = []"
  by (simp add: idle_schedule_def start_def sample_pages_def scan_start_def
      main_step_def worker_step_def Before_def Let_def eval_nat_numeral)

lemma failing_run_buffered:
  "\<exists>s. exec [MainStep, MainStep, MainStep, MainStep] (start failing_pages 50 2 1) = Some s
       \<and> pc s = Fatal (ListFailed ''boom'') \<and> sent (scanner s) = []
       \<and> objectsBuffer (scanner s) = [''a''] \<and> deletes s = []"
  by (simp add: failing_pages_def start_def scan_start_def
      main_step_def worker_step_def Before_def Let_def eval_nat_numeral)

subsection \<open>The claims about a run\<close>

text \<open>
  C5. In every state a run reaches, whatever the schedule and the answers of the store, the
  counter \<open>totalDeleted\<close> is at most the count \<open>totalObjects\<close> of the scan. The scan
  counts a key when it puts it into the buffer, so before the batch holding it is sent: the
  count is the keys of the batches sent plus the keys buffered and still to be sent. The
  delete calls made are calls on batches that were sent, each batch at most once, and the
  counter holds at most the keys of the calls that succeeded.
\<close>

theorem deleted_never_exceeds_candidates:
  assumes "exec sched (start pages td m n) = Some s"
  shows "totalObjects (scanner s)
           = sizes (sent (scanner s))
             + (if flushed (pc s) then 0 else int (length (objectsBuffer (scanner s))))
         \<and> mset (map fst (deletes s)) \<subseteq># mset (sent (scanner s))
         \<and> totalDeleted s \<le> sizes (map fst (filter snd (deletes s)))
         \<and> sizes (map fst (deletes s)) \<le> sizes (sent (scanner s))
         \<and> totalDeleted s \<le> totalObjects (scanner s)"
proof -
  from sound_reached [OF assms] have c: "counted s" and v: "conserved s"
    by (simp_all add: sound_def)
  from c have tot: "totalObjects (scanner s)
      = sizes (sent (scanner s))
        + (if flushed (pc s) then 0 else int (length (objectsBuffer (scanner s))))"
    by (simp add: counted_def)
  from v have flow: "mset (sent (scanner s))
      = mset (objectsToDelete s) + sum_list (map held (pool s)) + mset (map fst (deletes s))"
    and cnt: "totalDeleted s + sum_list (map uncounted (pool s))
      = sizes (map fst (filter snd (deletes s)))"
    by (simp_all add: conserved_def)
  from flow have sub: "mset (map fst (deletes s)) \<subseteq># mset (sent (scanner s))"
    by simp
  from cnt uncounted_nonneg [of "pool s"]
  have d1: "totalDeleted s \<le> sizes (map fst (filter snd (deletes s)))"
    by linarith
  have d2: "sizes (map fst (filter snd (deletes s))) \<le> sizes (map fst (deletes s))"
    using sizes_split [of "deletes s"] sizes_nonneg [of "map fst (filter (\<lambda>c. \<not> snd c) (deletes s))"]
    by linarith
  have d3: "sizes (map fst (deletes s)) \<le> sizes (sent (scanner s))"
    unfolding sizes_mset flow
    using sum_lengths_nonneg [of "mset (objectsToDelete s)"]
      sum_lengths_nonneg [of "sum_list (map held (pool s))"]
    by simp
  have d4: "sizes (sent (scanner s)) \<le> totalObjects (scanner s)"
    using tot by simp
  show ?thesis using tot sub d1 d2 d3 d4 by simp
qed

theorem deleted_never_exceeds_candidates_witness:
  "\<exists>s. exec (take 13 sample_schedule) (start sample_pages 50 2 2) = Some s
       \<and> totalDeleted s = 0 \<and> totalObjects (scanner s) = 3
       \<and> totalDeleted s \<le> totalObjects (scanner s)"
proof -
  from sample_run_midway obtain s
    where run: "exec (take 13 sample_schedule) (start sample_pages 50 2 2) = Some s"
      and vals: "totalDeleted s = 0" "totalObjects (scanner s) = 3"
    by blast
  from deleted_never_exceeds_candidates [OF run]
  have "totalDeleted s \<le> totalObjects (scanner s)" by simp
  with run vals show ?thesis by blast
qed

text \<open>
  C3. In a run that reaches the summary, with the counts \<open>d\<close> of deleted and \<open>t\<close> of
  candidate objects it prints: every batch the scan sent was passed to exactly one delete
  call, \<open>d\<close> is the number of keys of the calls that succeeded, and \<open>t - d\<close> is the
  number of keys of the calls that failed. So \<open>d = t\<close> when every call succeeded and
  \<open>d < t\<close> when some call failed.
\<close>

theorem summary_shortfall:
  assumes "exec sched (start pages td m n) = Some s" and "pc s = Finished d t"
  shows "d = sizes (map fst (filter snd (deletes s)))
         \<and> t - d = sizes (map fst (filter (\<lambda>c. \<not> snd c) (deletes s)))
         \<and> (list_all snd (deletes s) \<longrightarrow> d = t)
         \<and> (\<not> list_all snd (deletes s) \<longrightarrow> d < t)
         \<and> mset (map fst (deletes s)) = mset (batches (listAndDeleteObjects pages td m))
         \<and> t = total (listAndDeleteObjects pages td m)"
proof -
  from sound_reached [OF assms(1)]
  have c: "counted s" and v: "conserved s" and y: "synced s" and f: "follows pages td m s"
    by (simp_all add: sound_def)
  from y assms(2) have d: "d = totalDeleted s" and t: "t = totalObjects (scanner s)"
    and ex: "list_all (\<lambda>w. w = Exited) (pool s)"
    by (auto simp: synced_def)
  from y have "length (objectsToDelete s) \<le> length (pool s)"
    and "Exited \<in> set (pool s) \<longrightarrow> objectsToDelete s = []"
    by (simp_all add: synced_def)
  with ex have empty: "objectsToDelete s = []"
    by (cases "pool s") simp_all
  from v empty all_exited [OF ex]
  have flow: "mset (sent (scanner s)) = mset (map fst (deletes s))"
    and cnt: "totalDeleted s = sizes (map fst (filter snd (deletes s)))"
    by (simp_all add: conserved_def)
  from c assms(2) have "totalObjects (scanner s) = sizes (sent (scanner s))"
    and nonempty: "[] \<notin> set (sent (scanner s))"
    by (simp_all add: counted_def)
  then have tt: "t = sizes (map fst (deletes s))"
    using t flow by (simp add: sizes_mset)
  from f assms(2) have res: "listAndDeleteObjects pages td m
      = \<lparr>batches = sent (scanner s), total = totalObjects (scanner s), err = None\<rparr>"
    by (simp add: follows_def)
  have a1: "d = sizes (map fst (filter snd (deletes s)))"
    using d cnt by simp
  have a2: "t - d = sizes (map fst (filter (\<lambda>c. \<not> snd c) (deletes s)))"
    using a1 tt sizes_split [of "deletes s"] by simp
  have a3: "d = t" if "list_all snd (deletes s)"
  proof -
    from that have "filter snd (deletes s) = deletes s"
      by (simp add: list_all_iff)
    with a1 tt show ?thesis by simp
  qed
  have a4: "d < t" if "\<not> list_all snd (deletes s)"
  proof -
    from that obtain b where b: "(b, False) \<in> set (deletes s)"
      by (auto simp: list_all_iff)
    then have "b \<in> set (map fst (deletes s))" by force
    then have "b \<in> set (sent (scanner s))"
      using flow by (metis set_mset_mset)
    with nonempty have "b \<noteq> []" by auto
    moreover from b have "b \<in> set (map fst (filter (\<lambda>c. \<not> snd c) (deletes s)))" by force
    ultimately have "0 < sizes (map fst (filter (\<lambda>c. \<not> snd c) (deletes s)))"
      by (rule sizes_positive [rotated])
    with a2 show ?thesis by simp
  qed
  have a5: "mset (map fst (deletes s)) = mset (batches (listAndDeleteObjects pages td m))"
    using flow res by simp
  have a6: "t = total (listAndDeleteObjects pages td m)"
    using t res by simp
  show ?thesis using a1 a2 a3 a4 a5 a6 by blast
qed

theorem summary_shortfall_witness:
  "\<exists>s. exec sample_schedule (start sample_pages 50 2 2) = Some s
       \<and> pc s = Finished 2 3
       \<and> deletes s = [([''a'', ''c''], True), ([''e''], False)]
       \<and> \<not> list_all snd (deletes s)
       \<and> (3::int) - 2 = sizes (map fst (filter (\<lambda>c. \<not> snd c) (deletes s)))
       \<and> (2::int) < 3"
proof -
  from sample_run obtain s
    where run: "exec sample_schedule (start sample_pages 50 2 2) = Some s"
      and fin: "pc s = Finished 2 3"
      and dels: "deletes s = [([''a'', ''c''], True), ([''e''], False)]"
    by blast
  from dels have failed: "\<not> list_all snd (deletes s)" by simp
  from summary_shortfall [OF run fin] failed
  have "(3::int) - 2 = sizes (map fst (filter (\<lambda>c. \<not> snd c) (deletes s)))" and "(2::int) < 3"
    by blast+
  with run fin dels failed show ?thesis by blast
qed

text \<open>
  C6. With at least one worker, for every listing, cutoff and batch limit: the channel has
  room for as many batches as there are workers; a run makes at most as many steps as the
  measure of its first state, so no run goes on for ever; in every state reached in which
  the process has not ended some goroutine can make a step, so no run is stuck; and from
  every state reached some schedule leads to the end of the process. When every page is
  fetched the process ends with the summary, after the close of the channel, with the
  channel empty and every worker returned, and the summary counts the candidates of the
  listing; this includes a listing without candidates, where no batch is sent.
\<close>

theorem pipeline_terminates:
  assumes "1 \<le> n" and "exec sched (start pages td m n) = Some s"
  shows "capacity s = nat n \<and> length (pool s) = nat n
         \<and> length sched + work s \<le> work (start pages td m n)
         \<and> (\<not> ended (pc s) \<longrightarrow> enabled s)
         \<and> (\<exists>sched' s'. exec sched' s = Some s' \<and> ended (pc s'))
         \<and> (ended (pc s) \<and> first_error pages = None \<longrightarrow>
               pc s = Finished (totalDeleted s) (int (length (candidates td (fetched pages))))
               \<and> closed s \<and> objectsToDelete s = []
               \<and> list_all (\<lambda>w. w = Exited) (pool s))"
proof -
  note snd = sound_reached [OF assms(2)]
  then have y: "synced s" and cap: "capacity s = nat n"
    by (simp_all add: sound_def)
  from y cap have len: "length (pool s) = nat n"
    by (simp add: synced_def)
  from cap assms(1) have pos: "0 < capacity s" by simp
  have bound: "length sched + work s \<le> work (start pages td m n)"
    using work_exec [OF assms(2)] by simp
  have live: "enabled s" if "\<not> ended (pc s)"
    using y pos that by (rule progress)
  from assms(1) have "0 < n" by simp
  with snd have fin: "\<exists>sched' s'. exec sched' s = Some s' \<and> ended (pc s')"
    by (rule run_to_end)
  have summary: "pc s = Finished (totalDeleted s) (int (length (candidates td (fetched pages))))
                 \<and> closed s \<and> objectsToDelete s = []
                 \<and> list_all (\<lambda>w. w = Exited) (pool s)"
    if e: "ended (pc s)" and ok: "first_error pages = None"
  proof -
    note res = reached_result [OF assms(2)]
    have none: "err (listAndDeleteObjects pages td m) = None"
      using ok by (rule listAndDeleteObjects_complete(3))
    from e res none obtain d t where fin: "pc s = Finished d t"
      by (cases "pc s") auto
    with y have d: "d = totalDeleted s" and t: "t = totalObjects (scanner s)"
      and ex: "list_all (\<lambda>w. w = Exited) (pool s)" and cl: "closed s"
      by (auto simp: synced_def)
    from y have "length (objectsToDelete s) \<le> length (pool s)"
      and "Exited \<in> set (pool s) \<longrightarrow> objectsToDelete s = []"
      by (simp_all add: synced_def)
    with ex len assms(1) have empty: "objectsToDelete s = []"
      by (cases "pool s") simp_all
    from res fin have "total (listAndDeleteObjects pages td m) = totalObjects (scanner s)"
      by simp
    with t have "t = int (length (candidates td (fetched pages)))"
      using listAndDeleteObjects_complete(2) [OF ok, of td m] by simp
    with fin d ex cl empty show ?thesis by simp
  qed
  show ?thesis using cap len bound live fin summary by blast
qed

theorem pipeline_terminates_witness:
  "\<exists>s. exec idle_schedule (start sample_pages 5 2 1) = Some s
       \<and> candidates 5 (fetched sample_pages) = []
       \<and> sent (scanner s) = [] \<and> deletes s = []
       \<and> pc s = Finished 0 0
       \<and> closed s \<and> objectsToDelete s = [] \<and> pool s = [Exited]
       \<and> length idle_schedule \<le> work (start sample_pages 5 2 1)"
proof -
  from idle_run obtain s
    where run: "exec idle_schedule (start sample_pages 5 2 1) = Some s"
      and fin: "pc s = Finished 0 0" and none: "sent (scanner s) = []" "deletes s = []"
    by blast
  have one: "(1::int) \<le> 1" by simp
  note t = pipeline_terminates [OF one run]
  from fin have e: "ended (pc s)" by simp
  from t e sample_complete
  have "closed s" and "objectsToDelete s = []" and ex: "list_all (\<lambda>w. w = Exited) (pool s)"
    by blast+
  moreover from t have "length (pool s) = 1" by simp
  with ex have "pool s = [Exited]"
    by (cases "pool s") simp_all
  moreover from t have "length idle_schedule \<le> work (start sample_pages 5 2 1)"
    by simp
  moreover have "candidates 5 (fetched sample_pages) = []"
    by (simp add: sample_fetched candidates_def)
  ultimately show ?thesis using run fin none by blast
qed

text \<open>
  C4, as the code has it. When a page fetch fails, \<open>listAndDeleteObjects\<close> returns the
  error at once with the count of the candidates on the pages fetched before; the keys in
  its buffer are in no batch, and the later pages are not asked for. \<open>main\<close> then leaves
  through \<open>log.Fatalf\<close>: in no state of such a run is the channel closed, the wait for
  the workers reached or the summary printed, and once the process has left no goroutine
  makes a step, so a batch still in the channel or in the hands of a worker is not deleted.
\<close>

theorem listing_failure_is_fatal:
  assumes "first_error pages = Some e" and "exec sched (start pages td m n) = Some s"
  shows "listAndDeleteObjects pages td m
           = \<lparr>batches = sent (scan_contents td m (fetched pages) scan_start),
              total = int (length (candidates td (fetched pages))), err = Some e\<rparr>
         \<and> concat (batches (listAndDeleteObjects pages td m))
             @ objectsBuffer (scan_contents td m (fetched pages) scan_start)
           = candidates td (fetched pages)
         \<and> \<not> closed s \<and> pc s \<noteq> SendRest \<and> pc s \<noteq> Waiting \<and> (\<forall>d t. pc s \<noteq> Finished d t)
         \<and> (\<forall>r. pc s = Returned r \<longrightarrow>
               r = Some e \<and> main_step s = Some (s\<lparr>pc := Fatal (ListFailed e)\<rparr>)
               \<and> sent (scanner s) = batches (listAndDeleteObjects pages td m))
         \<and> (\<forall>x. pc s = Fatal x \<longrightarrow>
               x = ListFailed e \<and> (\<forall>a. step a s = None)
               \<and> sent (scanner s) = batches (listAndDeleteObjects pages td m))"
proof -
  let ?st = "scan_contents td m (fetched pages) scan_start"
  have tot: "totalObjects ?st = int (length (candidates td (fetched pages)))"
    using scan_contents_total [of td m "fetched pages" scan_start] by (simp add: scan_start_def)
  have a: "listAndDeleteObjects pages td m
             = \<lparr>batches = sent ?st, total = int (length (candidates td (fetched pages))),
                err = Some e\<rparr>"
    using scan_pages_failed [OF assms(1), of td m scan_start] tot
    by (simp add: listAndDeleteObjects_def Let_def)
  have b: "concat (batches (listAndDeleteObjects pages td m)) @ objectsBuffer ?st
             = candidates td (fetched pages)"
    using scan_contents_keys [of td m "fetched pages" scan_start] a
    by (simp add: scan_start_def)
  from a have er: "err (listAndDeleteObjects pages td m) = Some e" by simp
  note res = reached_result [OF assms(2)]
  from sound_reached [OF assms(2)] have y: "synced s"
    by (simp add: sound_def)
  from res er have c1: "pc s \<noteq> SendRest" and c2: "pc s \<noteq> Waiting"
    and c3: "\<forall>d t. pc s \<noteq> Finished d t"
    by auto
  from y c2 c3 have c0: "\<not> closed s"
    by (simp add: synced_def)
  have d: "r = Some e \<and> main_step s = Some (s\<lparr>pc := Fatal (ListFailed e)\<rparr>)
           \<and> sent (scanner s) = batches (listAndDeleteObjects pages td m)"
    if "pc s = Returned r" for r
  proof -
    from that res er have "r = Some e" by auto
    moreover from that res
    have "sent (scanner s) = batches (listAndDeleteObjects pages td m)" by auto
    ultimately show ?thesis using that by (simp add: main_step_def)
  qed
  have f: "x = ListFailed e \<and> (\<forall>a. step a s = None)
           \<and> sent (scanner s) = batches (listAndDeleteObjects pages td m)"
    if "pc s = Fatal x" for x
  proof -
    from that res er have "x = ListFailed e" by auto
    moreover from that res
    have "sent (scanner s) = batches (listAndDeleteObjects pages td m)" by auto
    moreover from that have "\<forall>a. step a s = None"
      by (simp add: ended_no_step)
    ultimately show ?thesis by simp
  qed
  show ?thesis using a b c0 c1 c2 c3 d f by blast
qed

theorem listing_failure_is_fatal_witness:
  "first_error failing_pages = Some ''boom''
   \<and> listAndDeleteObjects failing_pages 50 2 = \<lparr>batches = [], total = 1, err = Some ''boom''\<rparr>
   \<and> (\<exists>s. exec [MainStep, MainStep, MainStep, MainStep] (start failing_pages 50 2 1) = Some s
          \<and> pc s = Fatal (ListFailed ''boom'')
          \<and> objectsBuffer (scanner s) = [''a''] \<and> sent (scanner s) = []
          \<and> \<not> closed s
          \<and> step MainStep s = None \<and> step (WorkerStep 0 True) s = None)"
proof -
  have fe: "first_error failing_pages = Some ''boom''"
    by (simp add: failing_pages_def)
  from failing_run_buffered obtain s
    where run: "exec [MainStep, MainStep, MainStep, MainStep] (start failing_pages 50 2 1) = Some s"
      and at: "pc s = Fatal (ListFailed ''boom'')"
      and buf: "objectsBuffer (scanner s) = [''a'']" "sent (scanner s) = []"
    by blast
  note t = listing_failure_is_fatal [OF fe run]
  from t have "listAndDeleteObjects failing_pages 50 2
                 = \<lparr>batches = [], total = 1, err = Some ''boom''\<rparr>"
    by (simp add: failing_pages_def candidates_def scan_start_def scan_object_def
        Before_def Let_def)
  moreover from t have "\<not> closed s" by blast
  moreover from t at have "step MainStep s = None" and "step (WorkerStep 0 True) s = None"
    by blast+
  ultimately show ?thesis using fe run at buf by blast
qed

text \<open>
  The claim C4 as stated fails: in the run below the scan has sent the batch \<open>[a]\<close>
  before the second fetch fails; the process ends with the batch still in the channel, no
  delete call made for it and none to come, and without a summary.
\<close>

theorem dispatched_batch_abandoned_counterexample:
  "exec failing_schedule (start failing_pages 50 1 1) = Some abandoned
   \<and> pc abandoned = Fatal (ListFailed ''boom'')
   \<and> sent (scanner abandoned) = [[''a'']]
   \<and> objectsToDelete abandoned = [[''a'']]
   \<and> deletes abandoned = []
   \<and> totalDeleted abandoned = 0
   \<and> step MainStep abandoned = None
   \<and> step (WorkerStep 0 True) abandoned = None
   \<and> step (WorkerStep 0 False) abandoned = None"
  using failing_run by (simp add: abandoned_def main_step_def worker_step_def)

end
